theory Spec2Isabelle
  imports Complex_Main
begin

section \<open>Python strings\<close>

text \<open>
  A Python \<open>str\<close> is modelled as a \<open>string\<close>: a list of 8-bit characters, read as the
  code points U+0000 to U+00FF. The character classes below are Python's classes
  restricted to that range.
\<close>

definition dquote :: char where
  "dquote = CHR 0x22"

definition py_isspace :: "char \<Rightarrow> bool" where
  \<comment> \<open>\<open>str.isspace\<close> on one character: tab, LF, VT, FF, CR, FS, GS, RS, US, space, NEL, NBSP.\<close>
  "py_isspace c = (c \<in> set [CHR 0x09, CHR 0x0A, CHR 0x0B, CHR 0x0C, CHR 0x0D, CHR 0x1C,
                             CHR 0x1D, CHR 0x1E, CHR 0x1F, CHR 0x20, CHR 0x85, CHR 0xA0])"

definition py_strip :: "string \<Rightarrow> string" where
  \<comment> \<open>\<open>s.strip()\<close>\<close>
  "py_strip s = rev (dropWhile py_isspace (rev (dropWhile py_isspace s)))"

fun py_join :: "string \<Rightarrow> string list \<Rightarrow> string" where
  \<comment> \<open>\<open>sep.join(xs)\<close>\<close>
  "py_join sep [] = []"
| "py_join sep [x] = x"
| "py_join sep (x # y # ys) = x @ sep @ py_join sep (y # ys)"

function replace_go :: "string \<Rightarrow> string \<Rightarrow> string \<Rightarrow> string" where
  "replace_go old new [] = []"
| "replace_go old new (c # t) =
     (if old \<noteq> [] \<and> take (length old) (c # t) = old
      then new @ replace_go old new (drop (length old) (c # t))
      else c # replace_go old new t)"
  by pat_completeness auto
termination
  by (relation "measure (\<lambda>(old, new, s). length s)") auto

definition py_replace :: "string \<Rightarrow> string \<Rightarrow> string \<Rightarrow> string" where
  \<comment> \<open>\<open>s.replace(old, new)\<close>: the occurrences of \<open>old\<close> found left to right, without overlap.
      An empty \<open>old\<close> matches before every character and at the end.\<close>
  "py_replace old new s =
     (if old = [] then new @ concat (map (\<lambda>c. c # new) s) else replace_go old new s)"

definition lower_char :: "char \<Rightarrow> char" where
  \<comment> \<open>\<open>str.lower\<close> on one character: A-Z, and U+00C0 to U+00DE without the sign U+00D7.\<close>
  "lower_char c =
     (case map_of (zip ''ABCDEFGHIJKLMNOPQRSTUVWXYZ'' ''abcdefghijklmnopqrstuvwxyz'') c of
        Some l \<Rightarrow> l
      | None \<Rightarrow>
          (let n = (of_char c :: nat)
           in if 192 \<le> n \<and> n \<le> 222 \<and> n \<noteq> 215 then char_of (n + 32) else c))"

definition py_lower :: "string \<Rightarrow> string" where
  "py_lower s = map lower_char s"

definition digit_char :: "nat \<Rightarrow> char" where
  "digit_char d = ''0123456789'' ! d"

fun nat_digits :: "nat \<Rightarrow> string" where
  "nat_digits n = (if n < 10 then [digit_char n] else nat_digits (n div 10) @ [digit_char (n mod 10)])"

declare nat_digits.simps [simp del]

definition py_str_int :: "int \<Rightarrow> string" where
  \<comment> \<open>\<open>str(i)\<close>, which is also how an f-string formats an \<open>int\<close>\<close>
  "py_str_int i = (if i < 0 then CHR ''-'' # nat_digits (nat (- i)) else nat_digits (nat i))"

section \<open>Regular expressions as used through \<open>re\<close>\<close>

text \<open>
  The patterns of \<open>build_query.py\<close> use literal text, \<open>\d\<close>, \<open>\b\<close>, \<open>$\<close>, alternation,
  the greedy operators \<open>+\<close> and \<open>?\<close>, and numbered groups. The matcher is a backtracking
  matcher: \<open>rmatch r st\<close> lists, in the order in which Python's engine would try them,
  the states in which a match of \<open>r\<close> started in \<open>st\<close> can end. A state is the
  character before the current position (for \<open>\b\<close>), the rest of the subject and the
  groups captured so far, the most recent first.
\<close>

datatype regex =
    Lit string
  | Digit
  | WordB
  | Eol
  | Seq regex regex
  | Alt regex regex
  | Opt regex
  | Plus regex
  | Grp nat regex

type_synonym mstate = "char option \<times> string \<times> (nat \<times> string) list"

definition is_digit :: "char \<Rightarrow> bool" where
  \<comment> \<open>\<open>\d\<close>\<close>
  "is_digit c = (c \<in> set ''0123456789'')"

definition is_word :: "char \<Rightarrow> bool" where
  \<comment> \<open>\<open>\w\<close>: alphanumeric in Python's sense (\<open>str.isalnum\<close>) or the underscore.\<close>
  "is_word c =
     (c \<in> set ''abcdefghijklmnopqrstuvwxyzABCDEFGHIJKLMNOPQRSTUVWXYZ0123456789_'' \<or>
      (let n = (of_char c :: nat)
       in n \<in> set [170, 178, 179, 181, 185, 186, 188, 189, 190] \<or>
          (192 \<le> n \<and> n \<le> 214) \<or> (216 \<le> n \<and> n \<le> 246) \<or> 248 \<le> n))"

definition word_before :: "char option \<Rightarrow> bool" where
  "word_before p = (case p of None \<Rightarrow> False | Some c \<Rightarrow> is_word c)"

definition word_after :: "string \<Rightarrow> bool" where
  "word_after s = (case s of [] \<Rightarrow> False | c # _ \<Rightarrow> is_word c)"

function rmatch :: "regex \<Rightarrow> mstate \<Rightarrow> mstate list" where
  "rmatch (Lit w) (p, s, g) =
     (if take (length w) s = w
      then [(if w = [] then p else Some (last w), drop (length w) s, g)] else [])"
| "rmatch Digit (p, s, g) =
     (case s of [] \<Rightarrow> [] | c # t \<Rightarrow> if is_digit c then [(Some c, t, g)] else [])"
| "rmatch WordB (p, s, g) = (if word_before p \<noteq> word_after s then [(p, s, g)] else [])"
| "rmatch Eol (p, s, g) = (if s = [] \<or> s = [CHR 0x0A] then [(p, s, g)] else [])"
| "rmatch (Seq a b) st = concat (map (rmatch b) (rmatch a st))"
| "rmatch (Alt a b) st = rmatch a st @ rmatch b st"
| "rmatch (Opt a) st = rmatch a st @ [st]"
| "rmatch (Plus a) (p, s, g) =
     concat (map (\<lambda>st'. (if length (fst (snd st')) < length s then rmatch (Plus a) st' else [])
                          @ [st'])
                 (rmatch a (p, s, g)))"
| "rmatch (Grp n a) (p, s, g) =
     map (\<lambda>st'. (fst st', fst (snd st'),
                  (n, take (length s - length (fst (snd st'))) s) # snd (snd st')))
         (rmatch a (p, s, g))"
  by pat_completeness auto
termination
  by (relation "measures [\<lambda>(r, st). size r, \<lambda>(r, st). length (fst (snd st))]") auto

fun seqs :: "regex list \<Rightarrow> regex" where
  "seqs [] = Lit []"
| "seqs [r] = r"
| "seqs (r # rs) = Seq r (seqs rs)"

fun re_search_from :: "regex \<Rightarrow> char option \<Rightarrow> string \<Rightarrow> (string \<times> mstate) option" where
  \<comment> \<open>the leftmost match: the text skipped before it, and the state at its end\<close>
  "re_search_from r p [] =
     (case rmatch r (p, [], []) of [] \<Rightarrow> None | m # _ \<Rightarrow> Some ([], m))"
| "re_search_from r p (c # t) =
     (case rmatch r (p, c # t, []) of
        [] \<Rightarrow> map_option (\<lambda>(pre, m). (c # pre, m)) (re_search_from r (Some c) t)
      | m # _ \<Rightarrow> Some ([], m))"

definition re_search :: "regex \<Rightarrow> string \<Rightarrow> (string \<times> mstate) option" where
  \<comment> \<open>\<open>re.search(pattern, s)\<close>\<close>
  "re_search r s = re_search_from r None s"

definition match_group :: "mstate \<Rightarrow> nat \<Rightarrow> string" where
  \<comment> \<open>a group of \<open>match.groups()\<close> as an f-string formats it; a group that took no part
      in the match is Python's \<open>None\<close>\<close>
  "match_group m n = (case map_of (snd (snd m)) n of None \<Rightarrow> ''None'' | Some s \<Rightarrow> s)"

function re_sub_from :: "regex \<Rightarrow> string \<Rightarrow> char option \<Rightarrow> string \<Rightarrow> string" where
  "re_sub_from r repl p [] = (case rmatch r (p, [], []) of [] \<Rightarrow> [] | m # _ \<Rightarrow> repl)"
| "re_sub_from r repl p (c # t) =
     (case rmatch r (p, c # t, []) of
        [] \<Rightarrow> c # re_sub_from r repl (Some c) t
      | m # _ \<Rightarrow>
          if length (fst (snd m)) < length (c # t)
          then repl @ re_sub_from r repl (fst m) (fst (snd m))
          else repl @ c # re_sub_from r repl (Some c) t)"
  by pat_completeness auto
termination
  by (relation "measure (\<lambda>(r, repl, p, s). length s)") auto

definition re_sub :: "regex \<Rightarrow> string \<Rightarrow> string \<Rightarrow> string" where
  \<comment> \<open>\<open>re.sub(pattern, repl, s)\<close> for a replacement text without backslashes: every
      match, found left to right without overlap, is replaced by \<open>repl\<close>. A match of
      the empty string is replaced and the next character copied; no pattern of this
      program matches the empty string.\<close>
  "re_sub r repl s = re_sub_from r repl None s"

section \<open>\<open>build_query.py\<close>\<close>

definition truthy :: "string list option \<Rightarrow> bool" where
  \<comment> \<open>the truth value of an optional list argument: \<open>None\<close> and \<open>[]\<close> are false\<close>
  "truthy xs = (xs \<noteq> None \<and> xs \<noteq> Some [])"

fun contains :: "string \<Rightarrow> string \<Rightarrow> bool" where
  \<comment> \<open>\<open>w in s\<close>: \<open>w\<close> occurs in \<open>s\<close> as a substring\<close>
  "contains w [] = (w = [])"
| "contains w (c # t) = (take (length w) (c # t) = w \<or> contains w t)"

definition add_quotes :: "string \<Rightarrow> string" where
  "add_quotes term = (if CHR ''*'' \<in> set term then term else [dquote] @ term @ [dquote])"

definition format_terms :: "string list \<Rightarrow> string list" where
  "format_terms terms = map add_quotes terms"

definition or_clause :: "string list option \<Rightarrow> string" where
  \<comment> \<open>\<open>f"({' OR '.join(format_terms(xs))})" if xs else ""\<close>; \<open>None\<close> and the empty
      list are both false\<close>
  "or_clause xs =
     (case xs of None \<Rightarrow> [] | Some [] \<Rightarrow> []
      | Some ts \<Rightarrow> ''('' @ py_join '' OR '' (format_terms ts) @ '')'')"

definition when_clause :: "(int \<times> int) option \<Rightarrow> string" where
  "when_clause when =
     (case when of
        None \<Rightarrow> []
      | Some (start_year, end_year) \<Rightarrow>
          ''PUBYEAR AFT '' @ py_str_int start_year @ '' AND PUBYEAR BEF '' @ py_str_int end_year)"

definition combined_clause :: "string list option \<Rightarrow> string list option \<Rightarrow> string" where
  \<comment> \<open>\<open>" AND ".join([clause for clause in [where_clause, what_clause] if clause])\<close>\<close>
  "combined_clause wher what =
     py_join '' AND '' (filter (\<lambda>clause. clause \<noteq> []) [or_clause wher, or_clause what])"

definition build_search_query ::
  "string list option \<Rightarrow> string list option \<Rightarrow> (int \<times> int) option \<Rightarrow> string" where
  "build_search_query wher what when =
     py_strip (combined_clause wher what) @ '' '' @ when_clause when"

datatype error = ValueError string | AttributeError | TypeError | OverflowError | OtherError

definition year_item :: regex where
  \<comment> \<open>\<open>AFT \d+|BEF \d+|=\d+\<close>\<close>
  "year_item = Alt (Seq (Lit ''AFT '') (Plus Digit))
                (Alt (Seq (Lit ''BEF '') (Plus Digit)) (Seq (Lit ''='') (Plus Digit)))"

definition remove_year_pattern :: regex where
  \<comment> \<open>\<open>\bPUBYEAR (AFT \d+|BEF \d+|=\d+)( AND PUBYEAR (AFT \d+|BEF \d+|=\d+))?\b\<close>\<close>
  "remove_year_pattern =
     seqs [WordB, Lit ''PUBYEAR '', Grp 1 year_item,
           Opt (Grp 2 (Seq (Lit '' AND PUBYEAR '') (Grp 3 year_item))), WordB]"

definition year_pattern :: regex where
  \<comment> \<open>\<open>PUBYEAR AFT (\d+) AND PUBYEAR BEF (\d+)\<close>\<close>
  "year_pattern =
     seqs [Lit ''PUBYEAR AFT '', Grp 1 (Plus Digit), Lit '' AND PUBYEAR BEF '', Grp 2 (Plus Digit)]"

definition trailing_op_pattern :: regex where
  \<comment> \<open>\<open>( AND | OR )+$\<close>\<close>
  "trailing_op_pattern = Seq (Plus (Grp 1 (Alt (Lit '' AND '') (Lit '' OR '')))) Eol"

definition remove_year_clause :: "string \<Rightarrow> string" where
  "remove_year_clause query = py_strip (re_sub remove_year_pattern [] query)"

definition clean_boolean_query :: "string \<Rightarrow> string" where
  "clean_boolean_query query = re_sub trailing_op_pattern [] (py_strip query)"

definition extract_term_query :: "string \<Rightarrow> string" where
  "extract_term_query query = clean_boolean_query (''TS=('' @ remove_year_clause query @ '')'')"

definition extract_year_query_wos :: "string \<Rightarrow> string option" where
  "extract_year_query_wos query =
     (case re_search year_pattern query of
        Some (pre, m) \<Rightarrow> Some (''PY='' @ match_group m 1 @ ''-'' @ match_group m 2)
      | None \<Rightarrow> None)"

definition replace_years_with_scopus_format :: "string \<Rightarrow> string" where
  "replace_years_with_scopus_format query =
     (case re_search year_pattern query of
        Some (pre, m) \<Rightarrow>
          re_sub year_pattern
            (''AND PUBYEAR > '' @ match_group m 1 @ '' AND PUBYEAR < '' @ match_group m 2) query
      | None \<Rightarrow> query)"

definition unsupported_message :: "string \<Rightarrow> string" where
  "unsupported_message database =
     ''La base de datos ''           @ [CHR 0x27] @ database @ [CHR 0x27] @
     '' no est'' @ [CHR 0xE1] @ '' soportada. Usa '' @
     [CHR 0x27] @ ''google_scholar'' @ [CHR 0x27] @ '', '' @
     [CHR 0x27] @ ''wos'' @ [CHR 0x27] @ '' o '' @ [CHR 0x27] @ ''scopus'' @ [CHR 0x27] @ ''.''"

definition convert_query_for_database :: "string \<Rightarrow> string \<Rightarrow> error + string" where
  "convert_query_for_database combined_query database =
     (if py_lower database = ''google_scholar'' then
        (let scholar_query = py_replace '' OR '' '' '' (py_replace '' AND '' '' '' combined_query);
             scholar_query = remove_year_clause scholar_query
         in Inr (py_strip scholar_query))
      else if py_lower database = ''wos'' then
        (let term_query = extract_term_query combined_query;
             year_query = extract_year_query_wos combined_query;
             term_query = (if term_query \<noteq> [] then clean_boolean_query term_query else []);
             year_query = (case year_query of
                             None \<Rightarrow> []
                           | Some y \<Rightarrow> if y \<noteq> [] then clean_boolean_query y else []);
             wos_query = (if term_query \<noteq> [] \<and> year_query \<noteq> []
                          then term_query @ '' AND '' @ year_query
                          else if term_query \<noteq> [] then term_query
                          else if year_query \<noteq> [] then year_query
                          else [])
         in Inr (clean_boolean_query wos_query))
      else if py_lower database = ''scopus'' then
        Inr (replace_years_with_scopus_format combined_query)
      else Inl (ValueError (unsupported_message database)))"


section \<open>\<open>wos_query.py\<close>: one page\<close>

text \<open>
  A decoded JSON body. Numbers are only ever passed around, so an \<open>int\<close> stands for
  them. A dictionary is its list of items; lookup takes the first item with the key.
\<close>

datatype json =
    JNull
  | JBool bool
  | JNum int
  | JStr string
  | JList "json list"
  | JDict "(string \<times> json) list"

datatype body = NotJson | JsonBody json

datatype http_result =
    Response int body
  | RequestException
  | OtherException

record wos_row =
  Title :: json
  Authors :: string
  Year :: json
  Source :: json
  DOI :: json
  Abstract :: string

definition bnd :: "error + 'a \<Rightarrow> ('a \<Rightarrow> error + 'b) \<Rightarrow> error + 'b" where
  \<comment> \<open>sequencing: an exception raised by the first step ends the computation\<close>
  "bnd m f = (case m of Inl e \<Rightarrow> Inl e | Inr x \<Rightarrow> f x)"

definition py_get :: "json \<Rightarrow> string \<Rightarrow> json \<Rightarrow> error + json" where
  \<comment> \<open>\<open>x.get(key, default)\<close>: only a dictionary has the method\<close>
  "py_get x key dflt =
     (case x of
        JDict items \<Rightarrow> Inr (case map_of items key of None \<Rightarrow> dflt | Some v \<Rightarrow> v)
      | _ \<Rightarrow> Inl AttributeError)"

definition py_iter :: "json \<Rightarrow> error + json list" where
  \<comment> \<open>\<open>iter(x)\<close>: a list gives its elements, a dictionary its keys, a string its characters\<close>
  "py_iter x =
     (case x of
        JList xs \<Rightarrow> Inr xs
      | JDict items \<Rightarrow> Inr (map (\<lambda>kv. JStr (fst kv)) items)
      | JStr s \<Rightarrow> Inr (map (\<lambda>c. JStr [c]) s)
      | _ \<Rightarrow> Inl TypeError)"

definition is_dict :: "json \<Rightarrow> bool" where
  "is_dict x = (case x of JDict _ \<Rightarrow> True | _ \<Rightarrow> False)"

fun next_typed :: "string \<Rightarrow> json list \<Rightarrow> error + json" where
  \<comment> \<open>\<open>next((item.get('content') for item in items if item.get('type') == ty), 'N/A')\<close>\<close>
  "next_typed ty [] = Inr (JStr ''N/A'')"
| "next_typed ty (item # items) =
     bnd (py_get item ''type'' JNull)
       (\<lambda>t. if t = JStr ty then py_get item ''content'' JNull else next_typed ty items)"

fun next_doi :: "json list \<Rightarrow> error + json" where
  \<comment> \<open>\<open>next((item.get('value') for item in items if item.get('type', '').lower() == 'doi'), 'N/A')\<close>\<close>
  "next_doi [] = Inr (JStr ''N/A'')"
| "next_doi (item # items) =
     bnd (py_get item ''type'' (JStr []))
       (\<lambda>t. case t of
               JStr s \<Rightarrow> if py_lower s = ''doi'' then py_get item ''value'' JNull else next_doi items
             | _ \<Rightarrow> Inl AttributeError)"

fun join_json :: "string \<Rightarrow> json list \<Rightarrow> error + string" where
  \<comment> \<open>\<open>sep.join(xs)\<close>: every element has to be a string\<close>
  "join_json sep xs =
     (if list_all (\<lambda>x. case x of JStr _ \<Rightarrow> True | _ \<Rightarrow> False) xs
      then Inr (py_join sep (map (\<lambda>x. case x of JStr s \<Rightarrow> s | _ \<Rightarrow> []) xs))
      else Inl TypeError)"

definition dict_fields :: "string \<Rightarrow> json \<Rightarrow> json list \<Rightarrow> json list" where
  \<comment> \<open>\<open>[item.get(key, dflt) for item in items if isinstance(item, dict)]\<close>\<close>
  "dict_fields key dflt items =
     map (\<lambda>item. case py_get item key dflt of Inr v \<Rightarrow> v | Inl _ \<Rightarrow> dflt) (filter is_dict items)"

definition get2 :: "json \<Rightarrow> string \<Rightarrow> string \<Rightarrow> json \<Rightarrow> error + json" where
  \<comment> \<open>\<open>x.get(k1, {}).get(k2, dflt)\<close>\<close>
  "get2 x k1 k2 dflt = bnd (py_get x k1 (JDict [])) (\<lambda>y. py_get y k2 dflt)"

definition extract_record :: "json \<Rightarrow> error + wos_row" where
  \<comment> \<open>the body of the loop over \<open>records_data\<close>\<close>
  "extract_record record =
     bnd (get2 record ''static_data'' ''summary'' (JDict [])) (\<lambda>static_data.
     bnd (get2 static_data ''titles'' ''title'' (JList [])) (\<lambda>titles_list.
     bnd (py_iter titles_list) (\<lambda>titles.
     bnd (next_typed ''item'' titles) (\<lambda>title.
     bnd (get2 static_data ''names'' ''name'' (JList [])) (\<lambda>authors_list.
     bnd (py_iter authors_list) (\<lambda>names.
     bnd (join_json ''; '' (dict_fields ''full_name'' (JStr ''N/A'') names)) (\<lambda>authors.
     bnd (py_get static_data ''pub_info'' (JDict [])) (\<lambda>pub_info.
     bnd (py_get pub_info ''pubyear'' (JStr ''N/A'')) (\<lambda>pub_year.
     bnd (next_typed ''source'' titles) (\<lambda>source_title.
     bnd (get2 static_data ''identifiers'' ''identifier'' (JList [])) (\<lambda>identifiers.
     bnd (py_iter identifiers) (\<lambda>ids.
     bnd (next_doi ids) (\<lambda>doi.
     bnd (get2 record ''static_data'' ''fullrecord_metadata'' (JDict [])) (\<lambda>meta.
     bnd (get2 meta ''abstracts'' ''abstract'' (JList [])) (\<lambda>abstract.
     bnd (py_iter abstract) (\<lambda>parts.
     bnd (join_json '' '' (dict_fields ''content'' (JStr []) parts)) (\<lambda>abstract_text.
     Inr \<lparr>Title = title, Authors = authors, Year = pub_year, Source = source_title,
          DOI = doi, Abstract = abstract_text\<rparr>)))))))))))))))))"

fun extract_records :: "json list \<Rightarrow> error + wos_row list" where
  "extract_records [] = Inr []"
| "extract_records (record # rest) =
     bnd (extract_record record) (\<lambda>row. bnd (extract_records rest) (\<lambda>rows. Inr (row # rows)))"

definition parse_body :: "json \<Rightarrow> error + wos_row list option" where
  \<comment> \<open>what \<open>query_wos\<close> does with the decoded body of a 200 response; \<open>Inr None\<close> is
      \<open>return None\<close>, \<open>Inl\<close> an exception that leaves \<open>query_wos\<close>\<close>
  "parse_body data =
     (if is_dict data then
        bnd (get2 data ''Data'' ''Records'' (JDict [])) (\<lambda>records.
        bnd (py_get records ''records'' JNull) (\<lambda>records_container.
          if is_dict records_container then
            bnd (py_get records_container ''REC'' (JList [])) (\<lambda>records_data.
              case records_data of
                JDict _ \<Rightarrow> bnd (extract_records [records_data]) (\<lambda>rows. Inr (Some rows))
              | JList xs \<Rightarrow> bnd (extract_records xs) (\<lambda>rows. Inr (Some rows))
              | _ \<Rightarrow> Inr None)
          else Inr None))
      else Inr None)"

function query_wos_from ::
  "(nat \<Rightarrow> http_result) \<Rightarrow> nat \<Rightarrow> real \<Rightarrow> nat \<Rightarrow> real list
     \<Rightarrow> (error + wos_row list option) \<times> real list" where
  "query_wos_from get retries delay attempt sleeps =
     (if attempt < retries then
        (case get attempt of
           Response status_code b \<Rightarrow>
             if status_code = 200 then
               (case b of NotJson \<Rightarrow> (Inr None, sleeps) | JsonBody data \<Rightarrow> (parse_body data, sleeps))
             else if status_code = 429 then
               query_wos_from get retries delay (attempt + 1)
                 (sleeps @ [delay * (real attempt + 1)])
             else (Inr None, sleeps)
         | RequestException \<Rightarrow> (Inr None, sleeps)
         | OtherException \<Rightarrow> (Inl OtherError, sleeps))
      else (Inr None, sleeps))"
  by pat_completeness auto
termination
  by (relation "measure (\<lambda>(get, retries, delay, attempt, sleeps). retries - attempt)") auto

definition query_wos ::
  "(nat \<Rightarrow> http_result) \<Rightarrow> int \<Rightarrow> real \<Rightarrow> (error + wos_row list option) \<times> real list" where
  \<comment> \<open>\<open>query_wos(api_key, query, count, first_record, retries, delay)\<close>: \<open>get n\<close> is what
      the \<open>n\<close>-th call of \<open>requests.get\<close> does; the result comes with the list of the
      \<open>time.sleep\<close> calls made. \<open>range(retries)\<close> is empty for \<open>retries \<le> 0\<close>.\<close>
  "query_wos get retries delay = query_wos_from get (nat retries) delay 0 []"

section \<open>\<open>wos_query.py\<close>: pagination\<close>

text \<open>
  \<open>execute_query_paginated\<close> calls \<open>query_wos\<close> once per round of its loop. The model takes
  what these calls do as a parameter: \<open>fetch k first\<close> is the outcome of the \<open>k\<close>-th call
  (counted from 0), made for the page that starts at record \<open>first\<close>: \<open>Inl e\<close> when it
  raises, \<open>Inr None\<close> when it returns \<open>None\<close>, \<open>Inr (Some df)\<close> when it returns the frame
  with the rows \<open>df\<close>. What \<open>time.sleep\<close> does is a parameter too: \<open>nap secs\<close> is \<open>None\<close>
  when \<open>time.sleep(secs)\<close> returns and \<open>Some e\<close> when it raises \<open>e\<close>, as it does for a
  negative number and for one that is too large. \<open>delay\<close> is a float, as its default
  \<open>1.0\<close> is, and is given by its value. The calls of \<open>query_wos\<close> and of \<open>time.sleep\<close> are
  recorded in a trace, in the order in which they happen, and an exception that leaves
  the function is recorded in \<open>uncaught\<close>.
\<close>

datatype 'a event =
    Query int "error + 'a list option"
  | Sleep real

record 'a pstate =
  all_dfs :: "'a list list"
  first_record :: int
  attempts :: nat
  calls :: nat
  trace :: "'a event list"
  uncaught :: "error option"

definition page_size :: int where
  "page_size = 100"

definition sleep_time :: "real \<Rightarrow> nat \<Rightarrow> error + real" where
  \<comment> \<open>\<open>delay * (2 ** attempts)\<close>: the int \<open>2 ** attempts\<close> is converted to a float, which
      raises \<open>OverflowError\<close> from \<open>2 ** 1024\<close> on\<close>
  "sleep_time delay a = (if 1024 \<le> a then Inl OverflowError else Inr (delay * 2 ^ a))"

definition handler :: "(real \<Rightarrow> error option) \<Rightarrow> real \<Rightarrow> int \<Rightarrow> 'a pstate \<Rightarrow> 'a pstate \<times> bool" where
  \<comment> \<open>the block \<open>except Exception\<close>, which no \<open>try\<close> encloses: an exception raised in it
      leaves the function. The boolean tells whether the loop goes on.\<close>
  "handler nap delay retries st =
     (let st1 = st\<lparr>attempts := attempts st + 1\<rparr>
      in if int (attempts st1) \<ge> retries then (st1, False)
         else case sleep_time delay (attempts st1) of
                Inl e \<Rightarrow> (st1\<lparr>uncaught := Some e\<rparr>, False)
              | Inr secs \<Rightarrow>
                  (let st2 = st1\<lparr>trace := trace st1 @ [Sleep secs]\<rparr>
                   in case nap secs of
                        Some e \<Rightarrow> (st2\<lparr>uncaught := Some e\<rparr>, False)
                      | None \<Rightarrow> (st2, True)))"

definition loop_body ::
  "(nat \<Rightarrow> int \<Rightarrow> error + 'a list option) \<Rightarrow> (real \<Rightarrow> error option) \<Rightarrow> real \<Rightarrow> int \<Rightarrow>
     'a pstate \<Rightarrow> 'a pstate \<times> bool" where
  \<comment> \<open>one round of the \<open>while\<close> loop: the \<open>try\<close> block, and the handler when the call of
      \<open>query_wos\<close> or \<open>time.sleep(delay)\<close> raises. The boolean is false after a \<open>break\<close>
      and after an exception that leaves the function.\<close>
  "loop_body fetch nap delay retries st =
     (let out = fetch (calls st) (first_record st);
          st1 = st\<lparr>calls := calls st + 1, trace := trace st @ [Query (first_record st) out]\<rparr>
      in case out of
           Inl e \<Rightarrow> handler nap delay retries st1
         | Inr None \<Rightarrow> (st1, False)
         | Inr (Some df) \<Rightarrow>
             if df = [] then (st1, False)
             else
               (let st2 = st1\<lparr>all_dfs := all_dfs st1 @ [df]\<rparr>
                in if int (length df) < page_size then (st2, False)
                   else
                     (let st3 = st2\<lparr>first_record := first_record st2 + page_size,
                                     trace := trace st2 @ [Sleep delay]\<rparr>
                      in case nap delay of
                           Some e \<Rightarrow> handler nap delay retries st3
                         | None \<Rightarrow> (st3\<lparr>attempts := 0\<rparr>, True))))"

function paginate_loop ::
  "(nat \<Rightarrow> int \<Rightarrow> error + 'a list option) \<Rightarrow> (real \<Rightarrow> error option) \<Rightarrow> real \<Rightarrow> int \<Rightarrow> int \<Rightarrow>
     'a pstate \<Rightarrow> 'a pstate" where
  "paginate_loop fetch nap delay max_records retries st =
     (if first_record st \<le> max_records then
        (let (st', goes_on) = loop_body fetch nap delay retries st
         in if goes_on then paginate_loop fetch nap delay max_records retries st' else st')
      else st)"
  by pat_completeness auto
termination
  apply (relation "measures [\<lambda>(fetch, nap, delay, max_records, retries, st). nat (max_records + 1 - first_record st),
                          \<lambda>(fetch, nap, delay, max_records, retries, st). nat (retries - int (attempts st))]")
   apply simp
  apply (auto simp: loop_body_def handler_def Let_def page_size_def split: if_splits sum.splits option.splits)
  done

definition initial :: "'a pstate" where
  "initial = \<lparr>all_dfs = [], first_record = 1, attempts = 0, calls = 0, trace = [], uncaught = None\<rparr>"

definition run_paginated ::
  "(nat \<Rightarrow> int \<Rightarrow> error + 'a list option) \<Rightarrow> (real \<Rightarrow> error option) \<Rightarrow> real \<Rightarrow> int \<Rightarrow> int \<Rightarrow>
     'a pstate" where
  \<comment> \<open>the state in which the loop of \<open>execute_query_paginated\<close> ends\<close>
  "run_paginated fetch nap delay max_records retries =
     paginate_loop fetch nap delay max_records retries initial"

definition concat_result :: "'a list list \<Rightarrow> 'a list option" where
  \<comment> \<open>\<open>pd.concat(all_dfs, ignore_index=True) if all_dfs else None\<close>\<close>
  "concat_result dfs = (if dfs \<noteq> [] then Some (concat dfs) else None)"

definition execute_query_paginated ::
  "(nat \<Rightarrow> int \<Rightarrow> error + 'a list option) \<Rightarrow> (real \<Rightarrow> error option) \<Rightarrow> real \<Rightarrow> int \<Rightarrow> int \<Rightarrow>
     error + 'a list option" where
  "execute_query_paginated fetch nap delay max_records retries =
     (let st = run_paginated fetch nap delay max_records retries
      in case uncaught st of
           Some e \<Rightarrow> Inl e
         | None \<Rightarrow> Inr (concat_result (all_dfs st)))"

section \<open>Notions used to state the properties\<close>

definition op_alt :: regex where
  \<comment> \<open>the group of \<open>trailing_op_pattern\<close>\<close>
  "op_alt = Grp 1 (Alt (Lit '' AND '') (Lit '' OR ''))"

definition digits :: "string \<Rightarrow> bool" where
  \<comment> \<open>a non-empty run of decimal digits\<close>
  "digits d = (d \<noteq> [] \<and> list_all is_digit d)"

definition no_digit_next :: "string \<Rightarrow> bool" where
  \<comment> \<open>the text does not start with a decimal digit\<close>
  "no_digit_next s = (case s of [] \<Rightarrow> True | c # _ \<Rightarrow> \<not> is_digit c)"

definition terms_of :: "string list option \<Rightarrow> string list" where
  \<comment> \<open>the terms of an optional list of terms\<close>
  "terms_of xs = (case xs of None \<Rightarrow> [] | Some ts \<Rightarrow> ts)"

definition plain_word :: "string \<Rightarrow> bool" where
  \<comment> \<open>a non-empty text without space, parenthesis or double quote\<close>
  "plain_word w = (w \<noteq> [] \<and> CHR '' '' \<notin> set w \<and> CHR ''('' \<notin> set w \<and> CHR '')'' \<notin> set w \<and>
                   dquote \<notin> set w)"

definition throttled :: "http_result \<Rightarrow> bool" where
  \<comment> \<open>the response has status 429\<close>
  "throttled r = (case r of Response status_code _ \<Rightarrow> status_code = 429 | _ \<Rightarrow> False)"

definition attempt_outcome :: "http_result \<Rightarrow> error + wos_row list option" where
  \<comment> \<open>what \<open>query_wos\<close> returns or raises on an attempt that is not throttled\<close>
  "attempt_outcome r =
     (case r of
        Response status_code b \<Rightarrow>
          if status_code = 200
          then (case b of NotJson \<Rightarrow> Inr None | JsonBody data \<Rightarrow> parse_body data)
          else Inr None
      | RequestException \<Rightarrow> Inr None
      | OtherException \<Rightarrow> Inl OtherError)"

definition scholar_clause :: "string list option \<Rightarrow> string" where
  \<comment> \<open>a group of terms with single spaces for its \<open>OR\<close>s\<close>
  "scholar_clause xs =
     (case xs of None \<Rightarrow> [] | Some [] \<Rightarrow> []
      | Some ts \<Rightarrow> ''('' @ py_join '' '' (format_terms ts) @ '')'')"

definition scholar_form :: "string list option \<Rightarrow> string list option \<Rightarrow> string" where
  \<comment> \<open>the groups that are not empty, with a single space for the \<open>AND\<close> between them\<close>
  "scholar_form wher what =
     py_join '' '' (filter (\<lambda>clause. clause \<noteq> []) [scholar_clause wher, scholar_clause what])"

fun position :: "(nat \<Rightarrow> int \<Rightarrow> error + 'a list option) \<Rightarrow> nat \<Rightarrow> int \<times> nat" where
  \<comment> \<open>where the call number \<open>k\<close> stands when every sleep returns: the first record that it
      asks for, and the number of calls that raised in a row just before it. A call that
      raises is made again for the same first record; a page of at least 100 rows moves
      the first record by 100 and ends the row of failures.\<close>
  "position fetch 0 = (1, 0)"
| "position fetch (Suc k) =
     (case position fetch k of
        (fr, a) \<Rightarrow>
          (case fetch k fr of
             Inl e \<Rightarrow> (fr, Suc a)
           | Inr None \<Rightarrow> (fr, a)
           | Inr (Some df) \<Rightarrow> if 100 \<le> length df then (fr + 100, 0) else (fr, a)))"

definition record_at :: "(nat \<Rightarrow> int \<Rightarrow> error + 'a list option) \<Rightarrow> nat \<Rightarrow> int" where
  "record_at fetch k = fst (position fetch k)"

definition failures_before :: "(nat \<Rightarrow> int \<Rightarrow> error + 'a list option) \<Rightarrow> nat \<Rightarrow> nat" where
  "failures_before fetch k = snd (position fetch k)"

definition outcome_at :: "(nat \<Rightarrow> int \<Rightarrow> error + 'a list option) \<Rightarrow> nat \<Rightarrow> error + 'a list option" where
  "outcome_at fetch k = fetch k (record_at fetch k)"

definition rows_at :: "(nat \<Rightarrow> int \<Rightarrow> error + 'a list option) \<Rightarrow> nat \<Rightarrow> 'a list" where
  \<comment> \<open>the rows that the call number \<open>k\<close> returns, none when it raises or returns \<open>None\<close>\<close>
  "rows_at fetch k = (case outcome_at fetch k of Inr (Some df) \<Rightarrow> df | _ \<Rightarrow> [])"

definition goes_on_after ::
  "(nat \<Rightarrow> int \<Rightarrow> error + 'a list option) \<Rightarrow> int \<Rightarrow> int \<Rightarrow> nat \<Rightarrow> bool" where
  \<comment> \<open>whether another call follows the call number \<open>k\<close>\<close>
  "goes_on_after fetch mx retries k =
     (case outcome_at fetch k of
        Inl e \<Rightarrow> int (Suc (failures_before fetch k)) < retries
      | Inr None \<Rightarrow> False
      | Inr (Some df) \<Rightarrow> 100 \<le> length df \<and> record_at fetch k + 100 \<le> mx)"

definition round_events ::
  "(nat \<Rightarrow> int \<Rightarrow> error + 'a list option) \<Rightarrow> real \<Rightarrow> int \<Rightarrow> nat \<Rightarrow> 'a event list" where
  \<comment> \<open>the call number \<open>k\<close> and the sleep that follows it\<close>
  "round_events fetch delay retries k =
     Query (record_at fetch k) (outcome_at fetch k) #
     (case outcome_at fetch k of
        Inl e \<Rightarrow>
          if int (Suc (failures_before fetch k)) < retries
          then [Sleep (delay * 2 ^ Suc (failures_before fetch k))] else []
      | Inr None \<Rightarrow> []
      | Inr (Some df) \<Rightarrow> if 100 \<le> length df then [Sleep delay] else [])"

definition reached :: "(nat \<Rightarrow> int \<Rightarrow> error + 'a list option) \<Rightarrow> int \<Rightarrow> int \<Rightarrow> nat \<Rightarrow> bool" where
  \<comment> \<open>the loop is entered, and another call follows each call before the call number \<open>k\<close>:
      the call number \<open>k\<close> is made\<close>
  "reached fetch mx retries k = (1 \<le> mx \<and> (\<forall>j<k. goes_on_after fetch mx retries j))"

definition sleeps_return ::
  "(nat \<Rightarrow> int \<Rightarrow> error + 'a list option) \<Rightarrow> (real \<Rightarrow> error option) \<Rightarrow> real \<Rightarrow> int \<Rightarrow> int \<Rightarrow> bool" where
  \<comment> \<open>every sleep that the run calls returns. After a call that raises, with the ceiling
      not reached, the run computes \<open>delay * 2 ** attempts\<close> and sleeps that long. After a
      page of at least 100 rows it sleeps \<open>delay\<close>; when that sleep raises, the handler
      counts it as a failure, and nothing differs only if the handler then breaks out of
      a loop that was about to end anyway.\<close>
  "sleeps_return fetch nap delay mx retries =
     (\<forall>k. reached fetch mx retries k \<longrightarrow>
        (case outcome_at fetch k of
           Inl e \<Rightarrow>
             int (Suc (failures_before fetch k)) < retries \<longrightarrow>
               Suc (failures_before fetch k) < 1024 \<and>
               nap (delay * 2 ^ Suc (failures_before fetch k)) = None
         | Inr None \<Rightarrow> True
         | Inr (Some df) \<Rightarrow>
             100 \<le> length df \<longrightarrow>
               nap delay = None \<or>
               (retries \<le> int (Suc (failures_before fetch k)) \<and> mx < record_at fetch k + 100)))"

definition rounds_post ::
  "(nat \<Rightarrow> int \<Rightarrow> error + 'a list option) \<Rightarrow> real \<Rightarrow> int \<Rightarrow> int \<Rightarrow> 'a pstate \<Rightarrow> 'a pstate \<Rightarrow> bool" where
  \<comment> \<open>how the state \<open>st'\<close> in which the loop ends relates to the state \<open>st\<close> in which it
      was entered, when every sleep returns\<close>
  "rounds_post fetch delay mx retries st st' =
     (calls st \<le> calls st' \<and> uncaught st' = None \<and>
      trace st' = trace st @ concat (map (round_events fetch delay retries) [calls st..<calls st']) \<and>
      all_dfs st' = all_dfs st @ filter (\<lambda>df. df \<noteq> []) (map (rows_at fetch) [calls st..<calls st']) \<and>
      (\<forall>k. calls st \<le> k \<and> k < calls st' \<longrightarrow>
           record_at fetch k \<le> mx \<and> (Suc k < calls st' \<longleftrightarrow> goes_on_after fetch mx retries k)) \<and>
      (calls st' = calls st \<longleftrightarrow> mx < first_record st))"

definition sleep_small :: "real \<Rightarrow> error option" where
  \<comment> \<open>\<open>time.sleep\<close> on a number of seconds that is not too large: it raises \<open>ValueError\<close>
      for a negative number and returns otherwise\<close>
  "sleep_small secs =
     (if secs < 0 then Some (ValueError ''sleep length must be non-negative'') else None)"

definition wfetch :: "nat \<Rightarrow> int \<Rightarrow> error + nat list option" where
  \<comment> \<open>two pages of 100 rows, then pages of 37 rows\<close>
  "wfetch k fr = Inr (Some (replicate (if k < 2 then 100 else 37) k))"

definition wfetch2 :: "nat \<Rightarrow> int \<Rightarrow> error + nat list option" where
  \<comment> \<open>the calls number 0 and 2 return a page of 100 rows, every other call raises\<close>
  "wfetch2 k fr = (if k = 0 \<or> k = 2 then Inr (Some (replicate 100 k)) else Inl OtherError)"

definition wfetch3 :: "nat \<Rightarrow> int \<Rightarrow> error + nat list option" where
  \<comment> \<open>every other call raises; the calls in between return pages of 100, 100 and 37 rows\<close>
  "wfetch3 k fr =
     (if even k then Inl OtherError else Inr (Some (replicate (if k < 5 then 100 else 37) k)))"

definition whole_clause :: "string \<Rightarrow> bool" where
  \<comment> \<open>the empty text, or a text in parentheses\<close>
  "whole_clause c = (c = [] \<or> (\<exists>m. c = CHR ''('' # m @ '')''))"

section \<open>Properties of the string operations\<close>

lemma py_strip_id:
  assumes "s \<noteq> []" "\<not> py_isspace (hd s)" "\<not> py_isspace (last s)"
  shows "py_strip s = s"
proof -
  from assms obtain c t where s: "s = c # t" by (cases s) auto
  with assms have d: "dropWhile py_isspace s = s" by simp
  from assms obtain ys y where e: "s = ys @ [y]" by (cases s rule: rev_cases) auto
  with assms have "dropWhile py_isspace (rev s) = rev s" by simp
  with d show ?thesis by (simp add: py_strip_def)
qed

lemma py_strip_Nil: "py_strip [] = []" by (simp add: py_strip_def)

lemma or_clause_truthy: "truthy xs \<Longrightarrow> or_clause xs = ''('' @ py_join '' OR '' (format_terms (the xs)) @ '')''"
  by (cases xs) (auto simp: truthy_def or_clause_def split: list.splits)

lemma or_clause_absent: "\<not> truthy xs \<Longrightarrow> or_clause xs = []"
  by (cases xs) (auto simp: truthy_def or_clause_def split: list.splits)

lemma or_clause_strip: "py_strip (or_clause xs) = or_clause xs"
proof (cases "truthy xs")
  case True
  show ?thesis unfolding or_clause_truthy[OF True]
    by (rule py_strip_id) (simp_all add: py_isspace_def)
next
  case False then show ?thesis by (simp add: or_clause_absent py_strip_Nil)
qed

lemma and_clause_strip: "truthy xs \<Longrightarrow> truthy ys \<Longrightarrow> py_strip (or_clause xs @ '' AND '' @ or_clause ys) = or_clause xs @ '' AND '' @ or_clause ys"
  by (rule py_strip_id) (simp_all add: py_isspace_def or_clause_truthy)


section \<open>\<open>build_search_query\<close>\<close>

text \<open>
  C9. The location clause and the topic clause are joined with \<open>AND\<close> when both term lists
  are non-empty; one of them is used alone when only it is non-empty; the combined clause is
  empty when both are empty. The result is the combined clause, a space and the year
  clause. With all inputs absent the call returns normally, and the result is the space
  between two empty clauses.
\<close>

theorem build_search_query_clauses:
  "build_search_query wher what when =
     (if truthy wher \<and> truthy what then or_clause wher @ '' AND '' @ or_clause what
      else if truthy wher then or_clause wher
      else if truthy what then or_clause what
      else []) @ '' '' @ when_clause when \<and>
   (truthy wher \<longrightarrow>
      or_clause wher = ''('' @ py_join '' OR '' (map add_quotes (the wher)) @ '')'') \<and>
   (\<not> truthy wher \<longrightarrow> or_clause wher = []) \<and>
   combined_clause None None = [] \<and>
   build_search_query None None None = '' ''"
proof -
  have ne: "\<And>xs. truthy xs \<Longrightarrow> or_clause xs \<noteq> []" by (simp add: or_clause_truthy)
  have 1: "build_search_query wher what when =
     (if truthy wher \<and> truthy what then or_clause wher @ '' AND '' @ or_clause what
      else if truthy wher then or_clause wher
      else if truthy what then or_clause what
      else []) @ '' '' @ when_clause when"
    using or_clause_strip[of wher] or_clause_strip[of what] and_clause_strip[of wher what]
    by (simp add: build_search_query_def combined_clause_def or_clause_absent ne py_strip_Nil)
  have 2: "truthy wher \<longrightarrow>
      or_clause wher = ''('' @ py_join '' OR '' (map add_quotes (the wher)) @ '')''"
    using or_clause_truthy[of wher] by (simp add: format_terms_def)
  have 3: "\<not> truthy wher \<longrightarrow> or_clause wher = []" by (simp add: or_clause_absent)
  have 4: "combined_clause None None = []" by (simp add: combined_clause_def or_clause_def)
  have 5: "build_search_query None None None = '' ''"
    by (simp add: build_search_query_def combined_clause_def or_clause_def when_clause_def
                  py_strip_def)
  from 1 2 3 4 5 show ?thesis by (intro conjI)
qed

theorem build_search_query_clauses_witness:
  "truthy (Some [''a*'']) \<and> truthy (Some [''b*'', ''c*'']) \<and> \<not> truthy (Some []) \<and>
   build_search_query (Some [''a*'']) (Some [''b*'', ''c*'']) None = ''(a*) AND (b* OR c*) '' \<and>
   build_search_query (Some []) (Some [''b*'', ''c*'']) (Some (2018, 2022)) =
     ''(b* OR c*) PUBYEAR AFT 2018 AND PUBYEAR BEF 2022''"
  using build_search_query_clauses[of "Some [''a*'']" "Some [''b*'', ''c*'']" None]
        build_search_query_clauses[of "Some [''b*'', ''c*'']" "Some [''a*'']" None]
        build_search_query_clauses[of "Some []" "Some [''b*'', ''c*'']" "Some (2018, 2022)"]
  by (simp add: truthy_def add_quotes_def when_clause_def py_str_int_def nat_digits.simps
                digit_char_def)

section \<open>\<open>convert_query_for_database\<close>: the database name\<close>

text \<open>
  C8. A database name that, in lower case, is none of \<open>google_scholar\<close>, \<open>wos\<close> and
  \<open>scopus\<close> makes the translation raise \<open>ValueError\<close> (the error of an unsupported
  database) for every query, \<open>unknown\<close> being such a name; for the three names, in any
  mixture of upper and lower case, a translation is returned.
\<close>

theorem unsupported_database:
  "(py_lower database \<notin> {''google_scholar'', ''wos'', ''scopus''} \<longrightarrow>
      convert_query_for_database q database = Inl (ValueError (unsupported_message database))) \<and>
   (py_lower database \<in> {''google_scholar'', ''wos'', ''scopus''} \<longrightarrow>
      (\<exists>translated. convert_query_for_database q database = Inr translated)) \<and>
   convert_query_for_database q ''unknown'' = Inl (ValueError (unsupported_message ''unknown''))"
proof -
  have u: "py_lower ''unknown'' = ''unknown''" by (simp add: py_lower_def lower_char_def)
  show ?thesis
    unfolding convert_query_for_database_def u by (auto simp: Let_def)
qed

theorem unsupported_database_witness:
  "py_lower ''Bing'' \<notin> {''google_scholar'', ''wos'', ''scopus''} \<and>
   py_lower ''WoS'' \<in> {''google_scholar'', ''wos'', ''scopus''} \<and>
   convert_query_for_database ''x'' ''Bing'' = Inl (ValueError (unsupported_message ''Bing'')) \<and>
   (\<exists>translated. convert_query_for_database ''x'' ''WoS'' = Inr translated)"
  using unsupported_database[of "''Bing''" "''x''"] unsupported_database[of "''WoS''" "''x''"]
  by (simp add: py_lower_def lower_char_def)

section \<open>The matcher, and \<open>clean_boolean_query\<close>\<close>

lemma py_strip_last: "py_strip s \<noteq> [] \<Longrightarrow> \<not> py_isspace (last (py_strip s))"
proof -
  assume a: "py_strip s \<noteq> []"
  let ?d = "dropWhile py_isspace (rev (dropWhile py_isspace s))"
  from a have ne: "?d \<noteq> []" by (simp add: py_strip_def)
  then have "\<not> py_isspace (hd ?d)" by (rule hd_dropWhile)
  moreover have "last (py_strip s) = hd ?d" using ne by (simp add: py_strip_def last_rev)
  ultimately show ?thesis by simp
qed

declare rmatch.simps [simp del]

lemma take_lit: "take (length w) s = w \<Longrightarrow> s = w @ drop (length w) s"
  by (metis append_take_drop_id)

lemma Lit_results: "x \<in> set (rmatch (Lit w) (p, s, g)) \<Longrightarrow> s = w @ fst (snd x)"
  by (auto simp: rmatch.simps split: if_splits dest: take_lit)

lemma in_rmatch_Alt:
  "x \<in> set (rmatch (Alt a b) st) \<longleftrightarrow> x \<in> set (rmatch a st) \<or> x \<in> set (rmatch b st)"
  by (simp add: rmatch.simps)

lemma in_rmatch_Seq:
  "y \<in> set (rmatch (Seq a b) st) \<longleftrightarrow> (\<exists>x \<in> set (rmatch a st). y \<in> set (rmatch b x))"
  by (auto simp: rmatch.simps)

lemma in_rmatch_Grp:
  "y \<in> set (rmatch (Grp n a) (p, s, g)) \<Longrightarrow>
     \<exists>x \<in> set (rmatch a (p, s, g)). fst y = fst x \<and> fst (snd y) = fst (snd x) \<and>
        snd (snd y) = (n, take (length s - length (fst (snd x))) s) # snd (snd x)"
  by (force simp: rmatch.simps)

lemma in_rmatch_Plus:
  "y \<in> set (rmatch (Plus a) (p, s, g)) \<Longrightarrow>
     \<exists>x \<in> set (rmatch a (p, s, g)).
        y = x \<or> (length (fst (snd x)) < length s \<and> y \<in> set (rmatch (Plus a) x))"
  by (auto simp: rmatch.simps split: if_splits)

lemma op_alt_results:
  assumes "st' \<in> set (rmatch op_alt (p, s, g))"
  shows "\<exists>u. s = u @ CHR '' '' # fst (snd st')"
proof -
  from assms obtain x where x: "x \<in> set (rmatch (Alt (Lit '' AND '') (Lit '' OR '')) (p, s, g))"
    and r: "fst (snd st') = fst (snd x)"
    unfolding op_alt_def using in_rmatch_Grp by blast
  from x have "s = '' AND '' @ fst (snd x) \<or> s = '' OR '' @ fst (snd x)"
    unfolding in_rmatch_Alt using Lit_results by blast
  then have "s = '' AND'' @ CHR '' '' # fst (snd x) \<or> s = '' OR'' @ CHR '' '' # fst (snd x)"
    by simp
  with r show ?thesis by metis
qed

lemma plus_op_results:
  "st' \<in> set (rmatch (Plus op_alt) (p, s, g)) \<Longrightarrow> \<exists>u. s = u @ CHR '' '' # fst (snd st')"
proof (induction "length s" arbitrary: p s g rule: less_induct)
  case less
  from in_rmatch_Plus[OF less.prems] obtain st1 where st1: "st1 \<in> set (rmatch op_alt (p, s, g))"
    and alt: "st' = st1 \<or> (length (fst (snd st1)) < length s \<and> st' \<in> set (rmatch (Plus op_alt) st1))"
    by blast
  from st1 obtain u where u: "s = u @ CHR '' '' # fst (snd st1)" using op_alt_results by blast
  from alt show ?case
  proof
    assume "st' = st1" with u show ?thesis by blast
  next
    assume r: "length (fst (snd st1)) < length s \<and> st' \<in> set (rmatch (Plus op_alt) st1)"
    obtain p1 s1 g1 where e: "st1 = (p1, s1, g1)" by (cases st1) auto
    with r less.hyps[of s1 p1 g1] obtain u1 where "s1 = u1 @ CHR '' '' # fst (snd st')" by auto
    with u e have "s = (u @ CHR '' '' # u1) @ CHR '' '' # fst (snd st')" by simp
    then show ?thesis by blast
  qed
qed

lemma trailing_op_match:
  assumes "rmatch trailing_op_pattern (p, s, g) \<noteq> []"
  shows "s \<noteq> [] \<and> py_isspace (last s)"
proof -
  from assms obtain y where "y \<in> set (rmatch (Seq (Plus op_alt) Eol) (p, s, g))"
    unfolding trailing_op_pattern_def op_alt_def by (meson last_in_set)
  then obtain st' where st': "st' \<in> set (rmatch (Plus op_alt) (p, s, g))"
    and eol: "y \<in> set (rmatch Eol st')"
    unfolding in_rmatch_Seq by blast
  from st' obtain u where u: "s = u @ CHR '' '' # fst (snd st')" using plus_op_results by blast
  obtain p1 s1 g1 where e: "st' = (p1, s1, g1)" by (cases st') auto
  with eol have "s1 = [] \<or> s1 = [CHR 0x0A]" by (auto simp: rmatch.simps split: if_splits)
  with u e show ?thesis by (auto simp: py_isspace_def)
qed

lemma re_sub_from_no_match:
  "(\<And>p' u v. s = u @ v \<Longrightarrow> rmatch r (p', v, []) = []) \<Longrightarrow> re_sub_from r repl p s = s"
proof (induction s arbitrary: p)
  case Nil
  then show ?case by simp
next
  case (Cons c t)
  have h: "rmatch r (p, c # t, []) = []" using Cons.prems[of "[]" "c # t"] by simp
  have "re_sub_from r repl (Some c) t = t"
  proof (rule Cons.IH)
    fix p' u v assume "t = u @ v"
    then have "c # t = (c # u) @ v" by simp
    then show "rmatch r (p', v, []) = []" by (rule Cons.prems)
  qed
  with h show ?case by simp
qed

lemma clean_boolean_query_is_strip: "clean_boolean_query s = py_strip s"
  unfolding clean_boolean_query_def re_sub_def
proof (rule re_sub_from_no_match)
  fix p' u v assume e: "py_strip s = u @ v"
  show "rmatch trailing_op_pattern (p', v, []) = []"
  proof (rule ccontr)
    assume "rmatch trailing_op_pattern (p', v, []) \<noteq> []"
    then have v: "v \<noteq> [] \<and> py_isspace (last v)" by (rule trailing_op_match)
    with e have "py_strip s \<noteq> []" "last (py_strip s) = last v" by auto
    with py_strip_last[of s] v show False by simp
  qed
qed


text \<open>
  C4 (what the code does). \<open>clean_boolean_query\<close> strips the white space first, so the
  pattern \<open>( AND | OR )+$\<close>, which needs a space after the last operator, never matches:
  the function is \<open>strip\<close>, and an operator at the end of the query stays.
\<close>

theorem clean_boolean_query_keeps_operator:
  "clean_boolean_query s = py_strip s \<and>
   clean_boolean_query ''term AND '' = ''term AND'' \<and>
   clean_boolean_query ''term AND  OR '' = ''term AND  OR''"
  by (simp add: clean_boolean_query_is_strip py_strip_def py_isspace_def)

section \<open>Matches of the year pattern\<close>

lemma rmatch_Digit_results:
  "x \<in> set (rmatch Digit (p, s, g)) \<Longrightarrow> \<exists>c. is_digit c \<and> s = c # fst (snd x) \<and> x = (Some c, fst (snd x), g)"
  by (cases s) (auto simp: rmatch.simps split: if_splits)

lemma plus_digit_results:
  "y \<in> set (rmatch (Plus Digit) (p, s, g)) \<Longrightarrow>
     \<exists>d. digits d \<and> s = d @ fst (snd y) \<and> y = (Some (last d), fst (snd y), g)"
proof (induction "length s" arbitrary: p s g rule: less_induct)
  case less
  from in_rmatch_Plus[OF less.prems] obtain x where x: "x \<in> set (rmatch Digit (p, s, g))"
    and alt: "y = x \<or> (length (fst (snd x)) < length s \<and> y \<in> set (rmatch (Plus Digit) x))"
    by blast
  from rmatch_Digit_results[OF x] obtain c where c: "is_digit c" "s = c # fst (snd x)"
    "x = (Some c, fst (snd x), g)" by blast
  from alt show ?case
  proof
    assume "y = x"
    with c have "digits [c] \<and> s = [c] @ fst (snd y) \<and> y = (Some (last [c]), fst (snd y), g)"
      by (simp add: digits_def)
    then show ?thesis by blast
  next
    assume r: "length (fst (snd x)) < length s \<and> y \<in> set (rmatch (Plus Digit) x)"
    with c(3) have "y \<in> set (rmatch (Plus Digit) (Some c, fst (snd x), g))" by simp
    with r less.hyps[of "fst (snd x)" "Some c" g] obtain d where
      d: "digits d" "fst (snd x) = d @ fst (snd y)" "y = (Some (last d), fst (snd y), g)" by blast
    with c have "digits (c # d) \<and> s = (c # d) @ fst (snd y) \<and> y = (Some (last (c # d)), fst (snd y), g)"
      by (simp add: digits_def)
    then show ?thesis by blast
  qed
qed

lemma plus_digit_none: "no_digit_next s \<Longrightarrow> rmatch (Plus Digit) (p, s, g) = []"
  by (cases s) (simp_all add: rmatch.simps no_digit_next_def)

lemma plus_digit_Cons:
  "is_digit c \<Longrightarrow>
     rmatch (Plus Digit) (p, c # s, g) = rmatch (Plus Digit) (Some c, s, g) @ [(Some c, s, g)]"
  by (subst rmatch.simps(8)) (simp add: rmatch.simps(2))

lemma plus_digit_first:
  "digits d \<Longrightarrow> no_digit_next rest \<Longrightarrow>
     \<exists>others. rmatch (Plus Digit) (p, d @ rest, g) = (Some (last d), rest, g) # others"
proof (induction d arbitrary: p)
  case Nil
  then show ?case by (simp add: digits_def)
next
  case (Cons c d)
  then have c: "is_digit c" by (simp add: digits_def)
  show ?case
  proof (cases "d = []")
    case True
    with c Cons.prems show ?thesis
      by (simp add: plus_digit_Cons plus_digit_none)
  next
    case False
    with Cons.prems have "digits d" by (simp add: digits_def)
    from Cons.IH[OF this Cons.prems(2), of "Some c"] obtain others where
      "rmatch (Plus Digit) (Some c, d @ rest, g) = (Some (last d), rest, g) # others" by blast
    with c False show ?thesis
      by (simp add: plus_digit_Cons)
  qed
qed

lemma concat_map_first:
  "xs = x # xs' \<Longrightarrow> f x = y # ys \<Longrightarrow> \<exists>others. concat (map f xs) = y # others"
  by simp

lemma rmatch_Seq_first:
  assumes "rmatch a st = x # xs" "rmatch b x = y # ys"
  shows "\<exists>others. rmatch (Seq a b) st = y # others"
  using assms by (simp add: rmatch.simps(5))

lemma rmatch_Lit_append:
  "w \<noteq> [] \<Longrightarrow> rmatch (Lit w) (p, w @ s, g) = [(Some (last w), s, g)]"
  by (simp add: rmatch.simps(1))

lemma rmatch_Grp_first:
  assumes "rmatch a (p, d @ rest, g) = (p', rest, g') # xs"
  shows "\<exists>others. rmatch (Grp n a) (p, d @ rest, g) = (p', rest, (n, d) # g') # others"
  using assms by (simp add: rmatch.simps(9))

lemma year_pattern_first:
  assumes d1: "digits d1" and d2: "digits d2" and r: "no_digit_next rest"
  shows "\<exists>others. rmatch year_pattern
            (p, ''PUBYEAR AFT '' @ d1 @ '' AND PUBYEAR BEF '' @ d2 @ rest, g) =
          (Some (last d2), rest, (2, d2) # (1, d1) # g) # others"
proof -
  let ?B = "'' AND PUBYEAR BEF ''"
  have nb: "no_digit_next (?B @ d2 @ rest)" by (simp add: no_digit_next_def is_digit_def)
  from plus_digit_first[OF d1 nb] obtain o1 where
    "rmatch (Plus Digit) (Some CHR '' '', d1 @ ?B @ d2 @ rest, g) = (Some (last d1), ?B @ d2 @ rest, g) # o1"
    by blast
  from rmatch_Grp_first[OF this] obtain o2 where
    g1: "rmatch (Grp 1 (Plus Digit)) (Some CHR '' '', d1 @ ?B @ d2 @ rest, g) =
           (Some (last d1), ?B @ d2 @ rest, (1, d1) # g) # o2" by blast
  from plus_digit_first[OF d2 r] obtain o3 where
    "rmatch (Plus Digit) (Some CHR '' '', d2 @ rest, (1, d1) # g) = (Some (last d2), rest, (1, d1) # g) # o3"
    by blast
  from rmatch_Grp_first[OF this] obtain o4 where
    g2: "rmatch (Grp 2 (Plus Digit)) (Some CHR '' '', d2 @ rest, (1, d1) # g) =
           (Some (last d2), rest, (2, d2) # (1, d1) # g) # o4" by blast
  have l2: "rmatch (Lit ?B) (Some (last d1), ?B @ d2 @ rest, (1, d1) # g) =
              [(Some CHR '' '', d2 @ rest, (1, d1) # g)]"
    using rmatch_Lit_append[of ?B] by simp
  from rmatch_Seq_first[OF l2 g2] obtain o5 where
    s3: "rmatch (Seq (Lit ?B) (Grp 2 (Plus Digit))) (Some (last d1), ?B @ d2 @ rest, (1, d1) # g) =
           (Some (last d2), rest, (2, d2) # (1, d1) # g) # o5" by blast
  from rmatch_Seq_first[OF g1 s3] obtain o6 where
    s2: "rmatch (Seq (Grp 1 (Plus Digit)) (Seq (Lit ?B) (Grp 2 (Plus Digit))))
            (Some CHR '' '', d1 @ ?B @ d2 @ rest, g) =
           (Some (last d2), rest, (2, d2) # (1, d1) # g) # o6" by blast
  have l1: "rmatch (Lit ''PUBYEAR AFT '') (p, ''PUBYEAR AFT '' @ d1 @ ?B @ d2 @ rest, g) =
              [(Some CHR '' '', d1 @ ?B @ d2 @ rest, g)]"
    using rmatch_Lit_append[of "''PUBYEAR AFT ''"] by simp
  from rmatch_Seq_first[OF l1 s2] show ?thesis
    by (simp add: year_pattern_def)
qed

lemma Lit_results_full:
  "x \<in> set (rmatch (Lit w) (p, s, g)) \<Longrightarrow> w \<noteq> [] \<Longrightarrow>
     s = w @ fst (snd x) \<and> x = (Some (last w), fst (snd x), g)"
  by (auto simp: rmatch.simps split: if_splits dest: take_lit)

lemma grp_digits_results:
  assumes "y \<in> set (rmatch (Grp n (Plus Digit)) (p, s, g))"
  shows "\<exists>d. digits d \<and> s = d @ fst (snd y) \<and> y = (Some (last d), fst (snd y), (n, d) # g)"
proof -
  from in_rmatch_Grp[OF assms] obtain x where x: "x \<in> set (rmatch (Plus Digit) (p, s, g))"
    and e: "fst y = fst x" "fst (snd y) = fst (snd x)"
           "snd (snd y) = (n, take (length s - length (fst (snd x))) s) # snd (snd x)"
    by blast
  from plus_digit_results[OF x] obtain d where
    d: "digits d" "s = d @ fst (snd x)" "x = (Some (last d), fst (snd x), g)" by blast
  have "take (length s - length (fst (snd x))) s = d" using d(2)
    by (metis add_diff_cancel_right' append_eq_conv_conj length_append)
  with e d have "y = (Some (last d), fst (snd y), (n, d) # g)"
    by (metis fst_conv snd_conv prod.collapse)
  with d e show ?thesis by metis
qed

lemma year_pattern_results:
  assumes "y \<in> set (rmatch year_pattern (p, s, g))"
  shows "\<exists>d1 d2. digits d1 \<and> digits d2 \<and>
           s = ''PUBYEAR AFT '' @ d1 @ '' AND PUBYEAR BEF '' @ d2 @ fst (snd y) \<and>
           y = (Some (last d2), fst (snd y), (2, d2) # (1, d1) # g)"
proof -
  let ?A = "''PUBYEAR AFT ''" and ?B = "'' AND PUBYEAR BEF ''"
  from assms obtain x1 where x1: "x1 \<in> set (rmatch (Lit ?A) (p, s, g))"
    and y1: "y \<in> set (rmatch (Seq (Grp 1 (Plus Digit)) (Seq (Lit ?B) (Grp 2 (Plus Digit)))) x1)"
    unfolding year_pattern_def seqs.simps in_rmatch_Seq by blast
  from y1 obtain x2 where x2: "x2 \<in> set (rmatch (Grp 1 (Plus Digit)) x1)"
    and y2: "y \<in> set (rmatch (Seq (Lit ?B) (Grp 2 (Plus Digit))) x2)"
    unfolding in_rmatch_Seq by blast
  from y2 obtain x3 where x3: "x3 \<in> set (rmatch (Lit ?B) x2)"
    and y3: "y \<in> set (rmatch (Grp 2 (Plus Digit)) x3)"
    unfolding in_rmatch_Seq by blast
  from Lit_results_full[OF x1] have e1: "s = ?A @ fst (snd x1)" "x1 = (Some (last ?A), fst (snd x1), g)"
    by simp_all
  from x2 e1(2) have "x2 \<in> set (rmatch (Grp 1 (Plus Digit)) (Some (last ?A), fst (snd x1), g))" by simp
  from grp_digits_results[OF this] obtain d1 where
    d1: "digits d1" "fst (snd x1) = d1 @ fst (snd x2)" "x2 = (Some (last d1), fst (snd x2), (1, d1) # g)"
    by blast
  from x3 d1(3) have "x3 \<in> set (rmatch (Lit ?B) (Some (last d1), fst (snd x2), (1, d1) # g))" by simp
  from Lit_results_full[OF this] have e3: "fst (snd x2) = ?B @ fst (snd x3)"
    "x3 = (Some (last ?B), fst (snd x3), (1, d1) # g)" by simp_all
  from y3 e3(2) have "y \<in> set (rmatch (Grp 2 (Plus Digit)) (Some (last ?B), fst (snd x3), (1, d1) # g))"
    by simp
  from grp_digits_results[OF this] obtain d2 where
    d2: "digits d2" "fst (snd x3) = d2 @ fst (snd y)" "y = (Some (last d2), fst (snd y), (2, d2) # (1, d1) # g)"
    by blast
  have "s = ?A @ d1 @ ?B @ d2 @ fst (snd y)"
    using e1(1) d1(2) e3(1) d2(2) by (simp del: append.simps)
  with d1(1) d2(1) d2(3) show ?thesis by blast
qed


section \<open>Substrings, and scanning for the leftmost match\<close>

lemma contains_iff: "contains w s \<longleftrightarrow> (\<exists>a b. s = a @ w @ b)"
proof (induction s)
  case Nil
  then show ?case by simp
next
  case (Cons c t)
  show ?case
  proof
    assume "contains w (c # t)"
    then consider "take (length w) (c # t) = w" | "contains w t" by auto
    then show "\<exists>a b. c # t = a @ w @ b"
    proof cases
      case 1
      then have "c # t = [] @ w @ drop (length w) (c # t)" by (metis append_Nil append_take_drop_id)
      then show ?thesis by blast
    next
      case 2
      with Cons.IH obtain a b where "t = a @ w @ b" by blast
      then have "c # t = (c # a) @ w @ b" by simp
      then show ?thesis by blast
    qed
  next
    assume "\<exists>a b. c # t = a @ w @ b"
    then obtain a b where e: "c # t = a @ w @ b" by blast
    show "contains w (c # t)"
    proof (cases a)
      case Nil
      with e have "take (length w) (c # t) = w" by simp
      then show ?thesis by simp
    next
      case (Cons x a')
      with e have "t = a' @ w @ b" by simp
      with Cons.IH have "contains w t" by blast
      then show ?thesis by simp
    qed
  qed
qed

lemma contains_start: "take (length w) s = w \<Longrightarrow> contains w s"
  by (cases s) auto

lemma not_contains_append:
  "\<not> contains w (u @ v) \<Longrightarrow> \<not> contains w u \<and> \<not> contains w v"
  unfolding contains_iff by (metis append.assoc append_Nil append_Nil2)

lemma straddle:
  assumes t: "take (length w) (v @ c # r) = w" and v: "v \<noteq> []" and c: "c \<notin> set (tl w)"
  shows "take (length w) v = w"
proof (cases "length v < length w")
  case True
  from t have "w ! length v = (v @ c # r) ! length v"
    using True by (metis nth_take)
  then have "w ! length v = c" by simp
  moreover have "w ! length v \<in> set (tl w)"
  proof -
    from v have "0 < length v" by simp
    then obtain n where n: "length v = Suc n" by (cases "length v") auto
    from True have "w \<noteq> []" by auto
    then obtain x w' where w: "w = x # w'" by (cases w) auto
    with True n have "n < length w'" by simp
    with w n show ?thesis by simp
  qed
  ultimately show ?thesis using c by simp
next
  case False
  with t show ?thesis by simp
qed

lemma contains_sep:
  assumes "c \<notin> set w"
  shows "contains w (a @ c # b) \<longleftrightarrow> contains w a \<or> contains w b"
proof
  assume "contains w (a @ c # b)"
  then show "contains w a \<or> contains w b"
  proof (induction a)
    case Nil
    show ?case
    proof (cases w)
      case Nil
      then show ?thesis by simp
    next
      case (Cons x w')
      with assms have "take (length w) (c # b) \<noteq> w" by auto
      with Nil.prems show ?thesis by simp
    qed
  next
    case (Cons x a)
    from Cons.prems consider "take (length w) ((x # a) @ c # b) = w" | "contains w (a @ c # b)"
      by auto
    then show ?case
    proof cases
      case 1
      from assms have "c \<notin> set (tl w)" by (cases w) auto
      from straddle[OF 1 _ this] have "take (length w) (x # a) = w" by simp
      then show ?thesis by simp
    next
      case 2
      with Cons.IH show ?thesis by auto
    qed
  qed
next
  assume "contains w a \<or> contains w b"
  then show "contains w (a @ c # b)"
    unfolding contains_iff
    by (metis append.assoc append_Cons)
qed

lemma contains_sep_Cons: "c \<notin> set w \<Longrightarrow> w \<noteq> [] \<Longrightarrow> contains w (c # b) \<longleftrightarrow> contains w b"
  using contains_sep[of c w "[]" b] by (cases w) auto

lemma contains_sep_snoc: "c \<notin> set w \<Longrightarrow> w \<noteq> [] \<Longrightarrow> contains w (a @ [c]) \<longleftrightarrow> contains w a"
  using contains_sep[of c w a "[]"] by (cases w) auto

lemma re_sub_from_skip:
  "(\<And>u v p'. pre = u @ v \<Longrightarrow> v \<noteq> [] \<Longrightarrow> rmatch r (p', v @ suffix, []) = []) \<Longrightarrow>
     re_sub_from r repl p (pre @ suffix) =
       pre @ re_sub_from r repl (if pre = [] then p else Some (last pre)) suffix"
proof (induction pre arbitrary: p)
  case Nil
  then show ?case by simp
next
  case (Cons c t)
  have h: "rmatch r (p, (c # t) @ suffix, []) = []" using Cons.prems[of "[]" "c # t"] by simp
  have "re_sub_from r repl (Some c) (t @ suffix) =
          t @ re_sub_from r repl (if t = [] then Some c else Some (last t)) suffix"
  proof (rule Cons.IH)
    fix p' u v assume "t = u @ v" "v \<noteq> []"
    then have "c # t = (c # u) @ v" by simp
    from Cons.prems[OF this \<open>v \<noteq> []\<close>] show "rmatch r (p', v @ suffix, []) = []" .
  qed
  with h show ?case by simp
qed

lemma re_search_from_skip:
  "(\<And>u v p'. pre = u @ v \<Longrightarrow> v \<noteq> [] \<Longrightarrow> rmatch r (p', v @ suffix, []) = []) \<Longrightarrow>
     re_search_from r p (pre @ suffix) =
       map_option (\<lambda>(x, m). (pre @ x, m))
         (re_search_from r (if pre = [] then p else Some (last pre)) suffix)"
proof (induction pre arbitrary: p)
  case Nil
  then show ?case by (simp add: option.map_ident case_prod_unfold)
next
  case (Cons c t)
  have h: "rmatch r (p, (c # t) @ suffix, []) = []" using Cons.prems[of "[]" "c # t"] by simp
  have "re_search_from r (Some c) (t @ suffix) =
          map_option (\<lambda>(x, m). (t @ x, m))
            (re_search_from r (if t = [] then Some c else Some (last t)) suffix)"
  proof (rule Cons.IH)
    fix p' u v assume "t = u @ v" "v \<noteq> []"
    then have "c # t = (c # u) @ v" by simp
    from Cons.prems[OF this \<open>v \<noteq> []\<close>] show "rmatch r (p', v @ suffix, []) = []" .
  qed
  with h show ?case by (simp add: option.map_comp comp_def case_prod_unfold)
qed

lemma re_sub_from_match:
  assumes "rmatch r (p, s, []) = m # others" "length (fst (snd m)) < length s"
  shows "re_sub_from r repl p s = repl @ re_sub_from r repl (fst m) (fst (snd m))"
  using assms by (cases s) simp_all

lemma re_search_from_match:
  assumes "rmatch r (p, s, []) = m # others"
  shows "re_search_from r p s = Some ([], m)"
  using assms by (cases s) simp_all

lemma re_search_from_Some:
  "re_search_from r p s = Some (pre, m) \<Longrightarrow> \<exists>p' v. s = pre @ v \<and> m \<in> set (rmatch r (p', v, []))"
proof (induction s arbitrary: p pre)
  case Nil
  then have "pre = []" "m \<in> set (rmatch r (p, [], []))" by (auto split: list.splits)
  then show ?case by auto
next
  case (Cons c t)
  show ?case
  proof (cases "rmatch r (p, c # t, [])")
    case Nil
    with Cons.prems obtain pre' where "re_search_from r (Some c) t = Some (pre', m)" "pre = c # pre'"
      by auto
    with Cons.IH show ?thesis by fastforce
  next
    case (Cons m' ms)
    with Cons.prems have "pre = []" "m = m'" by auto
    with Cons show ?thesis by (metis append_Nil list.set_intros(1))
  qed
qed


section \<open>The Scopus translation\<close>

lemma is_digit_word: "is_digit c \<Longrightarrow> is_word c"
  unfolding is_digit_def is_word_def
  by (rule disjI1) (simp, blast)

lemma digits_last: "digits d \<Longrightarrow> is_digit (last d)"
  by (simp add: digits_def list_all_iff)

lemma digits_no_P: "digits d \<Longrightarrow> \<not> contains ''PUBYEAR'' d"
proof -
  assume d: "digits d"
  show ?thesis
  proof
    assume "contains ''PUBYEAR'' d"
    then obtain a b where "d = a @ ''PUBYEAR'' @ b" unfolding contains_iff by blast
    then have "CHR ''P'' \<in> set d" by simp
    with d have "is_digit CHR ''P''" by (simp add: digits_def list_all_iff)
    then show False by (simp add: is_digit_def)
  qed
qed

lemma year_pattern_start:
  assumes "rmatch year_pattern (p, s, g) \<noteq> []"
  shows "take (length ''PUBYEAR'') s = ''PUBYEAR''"
proof -
  from assms obtain y where "y \<in> set (rmatch year_pattern (p, s, g))" by (meson last_in_set)
  from year_pattern_results[OF this] obtain d1 d2 where
    "s = ''PUBYEAR AFT '' @ d1 @ '' AND PUBYEAR BEF '' @ d2 @ fst (snd y)" by blast
  then obtain t where "s = ''PUBYEAR'' @ t" by simp
  then show ?thesis by simp
qed

lemma remove_year_pattern_start:
  assumes "rmatch remove_year_pattern (p, s, g) \<noteq> []"
  shows "take (length ''PUBYEAR'') s = ''PUBYEAR''"
proof -
  from assms obtain y where "y \<in> set (rmatch remove_year_pattern (p, s, g))" by (meson last_in_set)
  then obtain x1 x2 where x1: "x1 \<in> set (rmatch WordB (p, s, g))"
    and x2: "x2 \<in> set (rmatch (Lit ''PUBYEAR '') x1)"
    unfolding remove_year_pattern_def seqs.simps in_rmatch_Seq by blast
  from x1 have "x1 = (p, s, g)" by (auto simp: rmatch.simps(3) split: if_splits)
  with x2 Lit_results[of x2 "''PUBYEAR ''" p s g] obtain t where "s = ''PUBYEAR'' @ t" by simp
  then show ?thesis by simp
qed

lemma no_start_in_prefix:
  assumes nc: "\<not> contains ''PUBYEAR'' pre" and s: "suffix = [] \<or> hd suffix \<notin> set ''UBYEAR''"
    and e: "pre = u @ v" and v: "v \<noteq> []"
  shows "take (length ''PUBYEAR'') (v @ suffix) \<noteq> ''PUBYEAR''"
proof
  assume t: "take (length ''PUBYEAR'') (v @ suffix) = ''PUBYEAR''"
  have "take (length ''PUBYEAR'') v = ''PUBYEAR''"
  proof (cases suffix)
    case Nil
    with t show ?thesis by simp
  next
    case (Cons c r)
    with s have "c \<notin> set (tl ''PUBYEAR'')" by simp
    with t Cons v show ?thesis using straddle[of "''PUBYEAR''" v c r] by simp
  qed
  then have "contains ''PUBYEAR'' v" by (rule contains_start)
  then have "contains ''PUBYEAR'' pre" unfolding e contains_iff
    by (metis append.assoc)
  with nc show False by simp
qed

lemma year_no_match:
  assumes "\<not> contains ''PUBYEAR'' pre" "suffix = [] \<or> hd suffix \<notin> set ''UBYEAR''"
    "pre = u @ v" "v \<noteq> []"
  shows "rmatch year_pattern (p, v @ suffix, g) = []"
  using no_start_in_prefix[OF assms] year_pattern_start by blast

lemma remove_year_no_match:
  assumes "\<not> contains ''PUBYEAR'' pre" "suffix = [] \<or> hd suffix \<notin> set ''UBYEAR''"
    "pre = u @ v" "v \<noteq> []"
  shows "rmatch remove_year_pattern (p, v @ suffix, g) = []"
  using no_start_in_prefix[OF assms] remove_year_pattern_start by blast

lemma year_no_match_Nil: "rmatch year_pattern (p, [], g) = []"
  using year_pattern_start[of p "[]" g] by auto

lemma remove_year_no_match_Nil: "rmatch remove_year_pattern (p, [], g) = []"
  using remove_year_pattern_start[of p "[]" g] by auto

lemma re_sub_year_none:
  assumes "\<not> contains ''PUBYEAR'' s"
  shows "re_sub_from year_pattern repl p s = s"
proof (rule re_sub_from_no_match)
  fix p' u v assume e: "s = u @ v"
  show "rmatch year_pattern (p', v, []) = []"
  proof (cases "v = []")
    case True then show ?thesis by (simp add: year_no_match_Nil)
  next
    case False
    from year_no_match[OF assms _ e False, of "[]"] show ?thesis by simp
  qed
qed

lemma re_sub_remove_year_none:
  assumes "\<not> contains ''PUBYEAR'' s"
  shows "re_sub_from remove_year_pattern repl p s = s"
proof (rule re_sub_from_no_match)
  fix p' u v assume e: "s = u @ v"
  show "rmatch remove_year_pattern (p', v, []) = []"
  proof (cases "v = []")
    case True then show ?thesis by (simp add: remove_year_no_match_Nil)
  next
    case False
    from remove_year_no_match[OF assms _ e False, of "[]"] show ?thesis by simp
  qed
qed

lemma year_clause_search:
  assumes s: "digits s" and e: "digits e" and pre: "\<not> contains ''PUBYEAR'' pre"
    and post: "no_digit_next post"
  shows "re_search year_pattern (pre @ ''PUBYEAR AFT '' @ s @ '' AND PUBYEAR BEF '' @ e @ post) =
           Some (pre, (Some (last e), post, [(2, e), (1, s)]))"
proof -
  let ?suffix = "''PUBYEAR AFT '' @ s @ '' AND PUBYEAR BEF '' @ e @ post"
  let ?p = "if pre = [] then None else Some (last pre)"
  from year_pattern_first[OF s e post, of ?p "[]"] obtain others where
    "rmatch year_pattern (?p, ?suffix, []) = (Some (last e), post, [(2, e), (1, s)]) # others"
    by blast
  from re_search_from_match[OF this]
  have m: "re_search_from year_pattern ?p ?suffix = Some ([], (Some (last e), post, [(2, e), (1, s)]))" .
  have "re_search_from year_pattern None (pre @ ?suffix) =
          map_option (\<lambda>(x, m). (pre @ x, m)) (re_search_from year_pattern ?p ?suffix)"
    by (rule re_search_from_skip) (rule year_no_match[OF pre], simp_all)
  with m show ?thesis by (simp add: re_search_def)
qed

lemma year_clause_sub:
  assumes s: "digits s" and e: "digits e" and pre: "\<not> contains ''PUBYEAR'' pre"
    and post: "no_digit_next post" and post2: "\<not> contains ''PUBYEAR'' post"
  shows "re_sub year_pattern repl (pre @ ''PUBYEAR AFT '' @ s @ '' AND PUBYEAR BEF '' @ e @ post) =
           pre @ repl @ post"
proof -
  let ?suffix = "''PUBYEAR AFT '' @ s @ '' AND PUBYEAR BEF '' @ e @ post"
  let ?p = "if pre = [] then None else Some (last pre)"
  from year_pattern_first[OF s e post, of ?p "[]"] obtain others where
    "rmatch year_pattern (?p, ?suffix, []) = (Some (last e), post, [(2, e), (1, s)]) # others"
    by blast
  from re_sub_from_match[OF this, of repl]
  have m: "re_sub_from year_pattern repl ?p ?suffix = repl @ re_sub_from year_pattern repl (Some (last e)) post"
    by simp
  have "re_sub_from year_pattern repl None (pre @ ?suffix) =
          pre @ re_sub_from year_pattern repl ?p ?suffix"
    by (rule re_sub_from_skip) (rule year_no_match[OF pre], simp_all)
  with m re_sub_year_none[OF post2] show ?thesis by (simp add: re_sub_def)
qed

lemma re_search_year_cases:
  "re_search year_pattern q = None \<or>
   (\<exists>pre s e post. digits s \<and> digits e \<and>
      q = pre @ ''PUBYEAR AFT '' @ s @ '' AND PUBYEAR BEF '' @ e @ post \<and>
      re_search year_pattern q = Some (pre, (Some (last e), post, [(2, e), (1, s)])))"
proof (cases "re_search year_pattern q")
  case None
  then show ?thesis by simp
next
  case (Some r)
  obtain pre m where r: "r = (pre, m)" by (cases r) auto
  with Some have "re_search_from year_pattern None q = Some (pre, m)" by (simp add: re_search_def)
  from re_search_from_Some[OF this] obtain p' v where
    v: "q = pre @ v" "m \<in> set (rmatch year_pattern (p', v, []))" by blast
  from year_pattern_results[OF v(2)] obtain d1 d2 where
    d: "digits d1" "digits d2" "v = ''PUBYEAR AFT '' @ d1 @ '' AND PUBYEAR BEF '' @ d2 @ fst (snd m)"
       "m = (Some (last d2), fst (snd m), [(2, d2), (1, d1)])" by blast
  from v(1) d(3) have q: "q = pre @ ''PUBYEAR AFT '' @ d1 @ '' AND PUBYEAR BEF '' @ d2 @ fst (snd m)"
    by simp
  from Some r d(4) have S: "re_search year_pattern q =
      Some (pre, (Some (last d2), fst (snd m), [(2, d2), (1, d1)]))" by simp
  have "digits d1 \<and> digits d2 \<and>
      q = pre @ ''PUBYEAR AFT '' @ d1 @ '' AND PUBYEAR BEF '' @ d2 @ fst (snd m) \<and>
      re_search year_pattern q = Some (pre, (Some (last d2), fst (snd m), [(2, d2), (1, d1)]))"
    using d(1) d(2) q S by (intro conjI)
  then show ?thesis by (intro disjI2 exI)
qed

lemma lower_names:
  "py_lower ''google_scholar'' = ''google_scholar''" "py_lower ''wos'' = ''wos''"
  "py_lower ''scopus'' = ''scopus''"
  by (simp_all add: py_lower_def lower_char_def)

lemma name_neq:
  "(''scopus'' = ''google_scholar'') = False" "(''scopus'' = ''wos'') = False"
  "(''wos'' = ''google_scholar'') = False"
  by simp_all

lemma convert_scopus:
  "convert_query_for_database q ''scopus'' = Inr (replace_years_with_scopus_format q)"
  unfolding convert_query_for_database_def lower_names
  by (simp only: name_neq if_False if_True refl)

lemma scopus_one_clause:
  assumes "digits s" "digits e" "\<not> contains ''PUBYEAR'' pre" "\<not> contains ''PUBYEAR'' post"
    "no_digit_next post"
  shows "replace_years_with_scopus_format
        (pre @ ''PUBYEAR AFT '' @ s @ '' AND PUBYEAR BEF '' @ e @ post) =
      pre @ ''AND PUBYEAR > '' @ s @ '' AND PUBYEAR < '' @ e @ post"
proof -
  let ?Q = "pre @ ''PUBYEAR AFT '' @ s @ '' AND PUBYEAR BEF '' @ e @ post"
  let ?M = "(Some (last e), post, [(2, e), (1, s)])"
  have S: "re_search year_pattern ?Q = Some (pre, ?M)"
    using assms by (intro year_clause_search)
  have G: "match_group ?M 1 = s" "match_group ?M 2 = e" by (simp_all add: match_group_def)
  have R: "re_sub year_pattern repl ?Q = pre @ repl @ post" for repl
    using assms by (intro year_clause_sub)
  have "replace_years_with_scopus_format ?Q =
          pre @ (''AND PUBYEAR > '' @ s @ '' AND PUBYEAR < '' @ e) @ post"
    unfolding replace_years_with_scopus_format_def S option.case prod.case G R ..
  then show ?thesis by simp
qed

text \<open>
  C6 (what the code does). The text that \<open>replace_years_with_scopus_format\<close> puts in the
  place of a year clause starts with \<open>AND\<close>: the clause \<open>PUBYEAR AFT 2018 AND PUBYEAR BEF
  2022\<close> becomes \<open>AND PUBYEAR > 2018 AND PUBYEAR < 2022\<close>, also at the start of a query
  made of a year clause alone. The text is built from the first year clause and put in
  the place of every year clause, so a second clause gets the years of the first. A
  query without a year clause is returned as it is.
\<close>

theorem scopus_year_clause_gets_and:
  "replace_years_with_scopus_format ''(cats*) PUBYEAR AFT 2018 AND PUBYEAR BEF 2022'' =
     ''(cats*) AND PUBYEAR > 2018 AND PUBYEAR < 2022'' \<and>
   convert_query_for_database (build_search_query None None (Some (2018, 2022))) ''scopus'' =
     Inr '' AND PUBYEAR > 2018 AND PUBYEAR < 2022'' \<and>
   replace_years_with_scopus_format
     ''PUBYEAR AFT 1 AND PUBYEAR BEF 2 OR PUBYEAR AFT 3 AND PUBYEAR BEF 4'' =
     ''AND PUBYEAR > 1 AND PUBYEAR < 2 OR AND PUBYEAR > 1 AND PUBYEAR < 2'' \<and>
   replace_years_with_scopus_format ''(cats*) '' = ''(cats*) ''"
  by code_simp

section \<open>Matches of the pattern of \<open>remove_year_clause\<close>\<close>

lemma rmatch_Opt_first:
  "rmatch a st = x # xs \<Longrightarrow> \<exists>others. rmatch (Opt a) st = x # others"
  by (simp add: rmatch.simps(7))

lemma rmatch_Opt_none: "rmatch a st = [] \<Longrightarrow> rmatch (Opt a) st = [st]"
  by (simp add: rmatch.simps(7))

lemma year_item_AFT:
  assumes "digits d" "no_digit_next rest"
  shows "\<exists>others. rmatch year_item (p, ''AFT '' @ d @ rest, g) = (Some (last d), rest, g) # others"
proof -
  from plus_digit_first[OF assms, of "Some CHR '' ''" g] obtain o1 where
    pd: "rmatch (Plus Digit) (Some CHR '' '', d @ rest, g) = (Some (last d), rest, g) # o1" by blast
  have l: "rmatch (Lit ''AFT '') (p, ''AFT '' @ d @ rest, g) = [(Some CHR '' '', d @ rest, g)]"
    using rmatch_Lit_append[of "''AFT ''"] by simp
  from rmatch_Seq_first[OF l pd] obtain o2 where
    "rmatch (Seq (Lit ''AFT '') (Plus Digit)) (p, ''AFT '' @ d @ rest, g) = (Some (last d), rest, g) # o2"
    by blast
  then show ?thesis by (simp add: year_item_def rmatch.simps(6))
qed

lemma year_item_BEF:
  assumes "digits d" "no_digit_next rest"
  shows "\<exists>others. rmatch year_item (p, ''BEF '' @ d @ rest, g) = (Some (last d), rest, g) # others"
proof -
  from plus_digit_first[OF assms, of "Some CHR '' ''" g] obtain o1 where
    pd: "rmatch (Plus Digit) (Some CHR '' '', d @ rest, g) = (Some (last d), rest, g) # o1" by blast
  have l: "rmatch (Lit ''BEF '') (p, ''BEF '' @ d @ rest, g) = [(Some CHR '' '', d @ rest, g)]"
    using rmatch_Lit_append[of "''BEF ''"] by simp
  from rmatch_Seq_first[OF l pd] obtain o2 where
    s: "rmatch (Seq (Lit ''BEF '') (Plus Digit)) (p, ''BEF '' @ d @ rest, g) = (Some (last d), rest, g) # o2"
    by blast
  have n: "rmatch (Seq (Lit ''AFT '') (Plus Digit)) (p, ''BEF '' @ d @ rest, g) = []"
    by (simp add: rmatch.simps(5) rmatch.simps(1))
  from s n show ?thesis by (simp add: year_item_def rmatch.simps(6))
qed

lemma rmatch_WordB_yes: "word_before p \<noteq> word_after s \<Longrightarrow> rmatch WordB (p, s, g) = [(p, s, g)]"
  by (simp add: rmatch.simps(3))

lemma word_after_P: "word_after (''PUBYEAR '' @ s)"
  by (simp add: word_after_def is_word_def)

lemma remove_first_single:
  assumes p: "\<not> word_before p"
    and yi: "rmatch year_item (Some CHR '' '', body @ rest, []) = (Some c, rest, []) # others"
    and c: "is_word c" and r: "\<not> word_after rest"
    and nl: "take (length '' AND PUBYEAR '') rest \<noteq> '' AND PUBYEAR ''"
  shows "\<exists>g' os. rmatch remove_year_pattern (p, ''PUBYEAR '' @ body @ rest, []) =
                    (Some c, rest, g') # os"
proof -
  let ?G2 = "Grp 2 (Seq (Lit '' AND PUBYEAR '') (Grp 3 year_item))"
  let ?g1 = "[(1, body)]"
  from rmatch_Grp_first[OF yi, of 1] obtain o1 where
    g1: "rmatch (Grp 1 year_item) (Some CHR '' '', body @ rest, []) = (Some c, rest, ?g1) # o1"
    by blast
  have "rmatch (Lit '' AND PUBYEAR '') (Some c, rest, ?g1) = []"
    using nl by (simp add: rmatch.simps(1))
  then have "rmatch ?G2 (Some c, rest, ?g1) = []"
    by (simp add: rmatch.simps(9) rmatch.simps(5))
  then have opt: "rmatch (Opt ?G2) (Some c, rest, ?g1) = [(Some c, rest, ?g1)]"
    by (rule rmatch_Opt_none)
  have wb: "rmatch WordB (Some c, rest, ?g1) = [(Some c, rest, ?g1)]"
    using c r by (intro rmatch_WordB_yes) (simp add: word_before_def)
  from rmatch_Seq_first[OF opt wb] obtain o2 where
    t: "rmatch (Seq (Opt ?G2) WordB) (Some c, rest, ?g1) = (Some c, rest, ?g1) # o2" by blast
  from rmatch_Seq_first[OF g1 t] obtain o3 where
    t2: "rmatch (Seq (Grp 1 year_item) (Seq (Opt ?G2) WordB)) (Some CHR '' '', body @ rest, []) =
           (Some c, rest, ?g1) # o3" by blast
  have l: "rmatch (Lit ''PUBYEAR '') (p, ''PUBYEAR '' @ body @ rest, []) =
             [(Some CHR '' '', body @ rest, [])]"
    using rmatch_Lit_append[of "''PUBYEAR ''"] by simp
  from rmatch_Seq_first[OF l t2] obtain o4 where
    t3: "rmatch (Seq (Lit ''PUBYEAR '') (Seq (Grp 1 year_item) (Seq (Opt ?G2) WordB)))
           (p, ''PUBYEAR '' @ body @ rest, []) = (Some c, rest, ?g1) # o4" by blast
  have w0: "rmatch WordB (p, ''PUBYEAR '' @ body @ rest, []) = [(p, ''PUBYEAR '' @ body @ rest, [])]"
    using p word_after_P by (intro rmatch_WordB_yes) simp
  from rmatch_Seq_first[OF w0 t3] show ?thesis
    unfolding remove_year_pattern_def seqs.simps by blast
qed

lemma remove_first_double:
  assumes p: "\<not> word_before p"
    and yi1: "rmatch year_item (Some CHR '' '', body1 @ '' AND PUBYEAR '' @ body2 @ rest, []) =
                (Some c1, '' AND PUBYEAR '' @ body2 @ rest, []) # others"
    and yi2: "\<And>g. \<exists>o2. rmatch year_item (Some CHR '' '', body2 @ rest, g) = (Some c2, rest, g) # o2"
    and c: "is_word c2" and r: "\<not> word_after rest"
  shows "\<exists>g' os. rmatch remove_year_pattern
                    (p, ''PUBYEAR '' @ body1 @ '' AND PUBYEAR '' @ body2 @ rest, []) =
                    (Some c2, rest, g') # os"
proof -
  let ?L = "'' AND PUBYEAR ''"
  let ?G2 = "Grp 2 (Seq (Lit ?L) (Grp 3 year_item))"
  let ?g1 = "[(1, body1)]"
  let ?rest1 = "?L @ body2 @ rest"
  from rmatch_Grp_first[OF yi1, of 1] obtain o1 where
    g1: "rmatch (Grp 1 year_item) (Some CHR '' '', body1 @ ?rest1, []) = (Some c1, ?rest1, ?g1) # o1"
    by blast
  from yi2[of ?g1] obtain o2 where
    y2: "rmatch year_item (Some CHR '' '', body2 @ rest, ?g1) = (Some c2, rest, ?g1) # o2" by blast
  from rmatch_Grp_first[OF y2, of 3] obtain o3 where
    g3: "rmatch (Grp 3 year_item) (Some CHR '' '', body2 @ rest, ?g1) =
           (Some c2, rest, (3, body2) # ?g1) # o3" by blast
  have l2: "rmatch (Lit ?L) (Some c1, ?L @ body2 @ rest, ?g1) = [(Some CHR '' '', body2 @ rest, ?g1)]"
    using rmatch_Lit_append[of ?L] by simp
  from rmatch_Seq_first[OF l2 g3] obtain o4 where
    "rmatch (Seq (Lit ?L) (Grp 3 year_item)) (Some c1, ?L @ body2 @ rest, ?g1) =
       (Some c2, rest, (3, body2) # ?g1) # o4" by blast
  then have "rmatch (Seq (Lit ?L) (Grp 3 year_item)) (Some c1, (?L @ body2) @ rest, ?g1) =
       (Some c2, rest, (3, body2) # ?g1) # o4" by simp
  from rmatch_Grp_first[OF this, of 2] obtain o5 where
    "rmatch ?G2 (Some c1, (?L @ body2) @ rest, ?g1) =
       (Some c2, rest, (2, ?L @ body2) # (3, body2) # ?g1) # o5" by blast
  then have g2: "rmatch ?G2 (Some c1, ?rest1, ?g1) =
       (Some c2, rest, (2, ?L @ body2) # (3, body2) # ?g1) # o5" by simp
  from rmatch_Opt_first[OF g2] obtain o6 where
    opt: "rmatch (Opt ?G2) (Some c1, ?rest1, ?g1) =
       (Some c2, rest, (2, ?L @ body2) # (3, body2) # ?g1) # o6" by blast
  have wb: "rmatch WordB (Some c2, rest, (2, ?L @ body2) # (3, body2) # ?g1) =
              [(Some c2, rest, (2, ?L @ body2) # (3, body2) # ?g1)]"
    using c r by (intro rmatch_WordB_yes) (simp add: word_before_def)
  from rmatch_Seq_first[OF opt wb] obtain o7 where
    t: "rmatch (Seq (Opt ?G2) WordB) (Some c1, ?rest1, ?g1) =
          (Some c2, rest, (2, ?L @ body2) # (3, body2) # ?g1) # o7" by blast
  from rmatch_Seq_first[OF g1 t] obtain o8 where
    t2: "rmatch (Seq (Grp 1 year_item) (Seq (Opt ?G2) WordB)) (Some CHR '' '', body1 @ ?rest1, []) =
           (Some c2, rest, (2, ?L @ body2) # (3, body2) # ?g1) # o8" by blast
  have l: "rmatch (Lit ''PUBYEAR '') (p, ''PUBYEAR '' @ body1 @ ?rest1, []) =
             [(Some CHR '' '', body1 @ ?rest1, [])]"
    using rmatch_Lit_append[of "''PUBYEAR ''"] by simp
  from rmatch_Seq_first[OF l t2] obtain o9 where
    t3: "rmatch (Seq (Lit ''PUBYEAR '') (Seq (Grp 1 year_item) (Seq (Opt ?G2) WordB)))
           (p, ''PUBYEAR '' @ body1 @ ?rest1, []) =
           (Some c2, rest, (2, ?L @ body2) # (3, body2) # ?g1) # o9" by blast
  have w0: "rmatch WordB (p, ''PUBYEAR '' @ body1 @ ?rest1, []) = [(p, ''PUBYEAR '' @ body1 @ ?rest1, [])]"
    using p word_after_P by (intro rmatch_WordB_yes) simp
  from rmatch_Seq_first[OF w0 t3] show ?thesis
    unfolding remove_year_pattern_def seqs.simps by blast
qed


section \<open>The Web of Science translation\<close>

lemma py_strip_snoc_space:
  assumes "py_isspace c"
  shows "py_strip (s @ [c]) = py_strip s"
proof (cases "dropWhile py_isspace s = []")
  case True
  then have "\<forall>x \<in> set s. py_isspace x" by (simp add: dropWhile_eq_Nil_conv)
  with assms have "dropWhile py_isspace (s @ [c]) = []"
    unfolding dropWhile_eq_Nil_conv by auto
  with True show ?thesis by (simp only: py_strip_def)
next
  case False
  then have "\<exists>x \<in> set s. \<not> py_isspace x" unfolding dropWhile_eq_Nil_conv by auto
  then have "dropWhile py_isspace (s @ [c]) = dropWhile py_isspace s @ [c]"
    by (auto simp: dropWhile_append1)
  with assms show ?thesis by (simp add: py_strip_def)
qed

lemma nat_digits_digits: "digits (nat_digits n)"
proof (induction n rule: nat_digits.induct)
  case (1 n)
  have d: "is_digit (digit_char k)" if "k < 10" for k
  proof -
    from that have "k \<in> {0,1,2,3,4,5,6,7,8,9}" by auto
    then show ?thesis by (auto simp: digit_char_def is_digit_def)
  qed
  show ?case
  proof (cases "n < 10")
    case True
    then show ?thesis by (subst nat_digits.simps) (simp add: digits_def d)
  next
    case False
    with 1 have "digits (nat_digits (n div 10))" by simp
    moreover have "is_digit (digit_char (n mod 10))" by (rule d) simp
    ultimately show ?thesis using False
      by (subst nat_digits.simps) (simp add: digits_def)
  qed
qed

lemma py_str_int_digits: "0 \<le> i \<Longrightarrow> digits (py_str_int i)"
  by (simp add: py_str_int_def nat_digits_digits)

lemma combined_clause_strip: "py_strip (combined_clause wher what) = combined_clause wher what"
proof -
  have ne: "\<And>xs. truthy xs \<Longrightarrow> or_clause xs \<noteq> []" by (simp add: or_clause_truthy)
  show ?thesis
  proof (cases "truthy wher")
    case w: True
    show ?thesis
    proof (cases "truthy what")
      case True
      with w and_clause_strip[OF w True] show ?thesis by (simp add: combined_clause_def ne)
    next
      case False
      with w or_clause_strip[of wher] show ?thesis
        by (simp add: combined_clause_def ne or_clause_absent)
    qed
  next
    case w: False
    show ?thesis
    proof (cases "truthy what")
      case True
      with w or_clause_strip[of what] show ?thesis
        by (simp add: combined_clause_def ne or_clause_absent)
    next
      case False
      with w show ?thesis by (simp add: combined_clause_def or_clause_absent py_strip_Nil)
    qed
  qed
qed

lemma build_search_query_eq:
  "build_search_query wher what when = combined_clause wher what @ '' '' @ when_clause when"
  by (simp add: build_search_query_def combined_clause_strip)

lemma wos_general:
  "convert_query_for_database q ''wos'' =
     Inr (''TS=('' @ remove_year_clause q @ '')'' @
          (case extract_year_query_wos q of None \<Rightarrow> [] | Some y \<Rightarrow> '' AND '' @ y))"
proof -
  let ?T = "''TS=('' @ remove_year_clause q @ '')''"
  have T: "py_strip ?T = ?T" by (rule py_strip_id) (simp_all add: py_isspace_def)
  have Tne: "?T \<noteq> []" by simp
  have et: "extract_term_query q = ?T"
    by (simp only: extract_term_query_def clean_boolean_query_is_strip T)
  show ?thesis
  proof (cases "re_search year_pattern q")
    case None
    then have y: "extract_year_query_wos q = None" by (simp add: extract_year_query_wos_def)
    show ?thesis
      unfolding convert_query_for_database_def lower_names
      by (simp only: name_neq if_False if_True refl Let_def et y option.case Tne not_False_eq_True
                     clean_boolean_query_is_strip T simp_thms append_Nil2)
  next
    case (Some r)
    with re_search_year_cases[of q] obtain pre s e post where
      d: "digits s" "digits e"
      and S: "re_search year_pattern q = Some (pre, (Some (last e), post, [(2, e), (1, s)]))"
      by auto
    let ?Y = "''PY='' @ s @ ''-'' @ e"
    have y: "extract_year_query_wos q = Some ?Y"
      by (simp add: extract_year_query_wos_def S match_group_def)
    have le: "\<not> py_isspace (last e)"
      using digits_last[OF d(2)] by (auto simp: is_digit_def py_isspace_def)
    have ene: "e \<noteq> []" using d(2) by (simp add: digits_def)
    have Y: "py_strip ?Y = ?Y" using le ene by (intro py_strip_id) (simp_all add: py_isspace_def)
    have TY: "py_strip (?T @ '' AND '' @ ?Y) = ?T @ '' AND '' @ ?Y"
      using le ene by (intro py_strip_id) (simp_all add: py_isspace_def)
    have Yne: "?Y \<noteq> []" by simp
    show ?thesis
      unfolding convert_query_for_database_def lower_names
      apply (simp only: name_neq if_False if_True refl Let_def et y option.case Tne Yne not_False_eq_True
                     clean_boolean_query_is_strip T Y TY simp_thms)
      apply (simp only: append.assoc)
      done
  qed
qed


section \<open>Queries built from terms without reserved words\<close>

lemma contains_Nil: "w \<noteq> [] \<Longrightarrow> \<not> contains w []"
  by simp

declare contains.simps [simp del]

lemma free_join:
  assumes w: "plain_word w" and s: "\<not> contains w sep"
  shows "\<forall>t \<in> set ts. \<not> contains w t \<Longrightarrow> \<not> contains w (py_join (CHR '' '' # sep @ '' '') ts)"
proof (induction ts)
  case Nil
  from w show ?case by (simp add: plain_word_def contains_Nil)
next
  case (Cons x ts)
  from w have sp: "CHR '' '' \<notin> set w" by (simp add: plain_word_def)
  show ?case
  proof (cases ts)
    case Nil
    with Cons.prems show ?thesis by simp
  next
    case (Cons y ys)
    from Cons.prems have x: "\<not> contains w x" by simp
    from Cons.IH Cons.prems have r: "\<not> contains w (py_join (CHR '' '' # sep @ '' '') ts)" by simp
    have "\<not> contains w (sep @ CHR '' '' # py_join (CHR '' '' # sep @ '' '') ts)"
      using s r by (simp only: contains_sep[OF sp] simp_thms)
    then have "\<not> contains w (x @ CHR '' '' # (sep @ CHR '' '' # py_join (CHR '' '' # sep @ '' '') ts))"
      using x by (simp only: contains_sep[OF sp] simp_thms)
    then show ?thesis using Cons by simp
  qed
qed

lemma free_join_space:
  assumes w: "plain_word w"
  shows "\<forall>t \<in> set ts. \<not> contains w t \<Longrightarrow> \<not> contains w (py_join '' '' ts)"
proof (induction ts)
  case Nil
  from w show ?case by (simp add: plain_word_def contains_Nil)
next
  case (Cons x ts)
  from w have sp: "CHR '' '' \<notin> set w" by (simp add: plain_word_def)
  show ?case
  proof (cases ts)
    case Nil
    with Cons.prems show ?thesis by simp
  next
    case (Cons y ys)
    from Cons.prems have x: "\<not> contains w x" by simp
    from Cons.IH Cons.prems have r: "\<not> contains w (py_join '' '' ts)" by simp
    then have "\<not> contains w (x @ CHR '' '' # py_join '' '' ts)"
      using x by (simp only: contains_sep[OF sp] simp_thms)
    then show ?thesis using Cons by simp
  qed
qed

lemma free_add_quotes:
  assumes w: "plain_word w" and t: "\<not> contains w t"
  shows "\<not> contains w (add_quotes t)"
proof -
  from w have q: "dquote \<notin> set w" "w \<noteq> []" by (simp_all add: plain_word_def)
  have "\<not> contains w (t @ [dquote])" using t by (simp add: contains_sep_snoc[OF q])
  then have "\<not> contains w (dquote # t @ [dquote])" by (simp add: contains_sep_Cons[OF q])
  with t show ?thesis by (simp add: add_quotes_def)
qed

lemma free_format_terms:
  "plain_word w \<Longrightarrow> \<forall>t \<in> set ts. \<not> contains w t \<Longrightarrow> \<forall>t \<in> set (format_terms ts). \<not> contains w t"
  by (simp add: format_terms_def free_add_quotes)

lemma free_parens:
  assumes w: "plain_word w" and t: "\<not> contains w s"
  shows "\<not> contains w (''('' @ s @ '')'')"
proof -
  from w have q: "CHR ''('' \<notin> set w" "CHR '')'' \<notin> set w" "w \<noteq> []" by (simp_all add: plain_word_def)
  have "\<not> contains w (s @ '')'')" using t by (simp add: contains_sep_snoc[OF q(2) q(3)])
  then show ?thesis by (simp add: contains_sep_Cons[OF q(1) q(3)])
qed

lemma free_or_clause:
  assumes w: "plain_word w" and o: "\<not> contains w ''OR''"
    and t: "\<forall>t \<in> set (terms_of xs). \<not> contains w t"
  shows "\<not> contains w (or_clause xs)"
proof (cases "truthy xs")
  case True
  then obtain ts where xs: "xs = Some ts" by (cases xs) (auto simp: truthy_def)
  with t have "\<forall>t \<in> set (format_terms ts). \<not> contains w t"
    by (intro free_format_terms[OF w]) (simp add: terms_of_def)
  from free_join[OF w o this] have "\<not> contains w (py_join '' OR '' (format_terms ts))" by simp
  from free_parens[OF w this] show ?thesis using or_clause_truthy[OF True] xs by simp
next
  case False
  with w show ?thesis by (simp add: or_clause_absent plain_word_def contains_Nil)
qed

lemma free_combined:
  assumes w: "plain_word w" and o: "\<not> contains w ''OR''" and a: "\<not> contains w ''AND''"
    and t1: "\<forall>t \<in> set (terms_of wher). \<not> contains w t"
    and t2: "\<forall>t \<in> set (terms_of what). \<not> contains w t"
  shows "\<not> contains w (combined_clause wher what)"
proof -
  from w have sp: "CHR '' '' \<notin> set w" and ne: "w \<noteq> []" by (simp_all add: plain_word_def)
  note c1 = free_or_clause[OF w o t1] and c2 = free_or_clause[OF w o t2]
  have "\<not> contains w (''AND'' @ CHR '' '' # or_clause what)"
    using a c2 by (simp only: contains_sep[OF sp] simp_thms)
  then have "\<not> contains w (or_clause wher @ CHR '' '' # (''AND'' @ CHR '' '' # or_clause what))"
    using c1 by (simp only: contains_sep[OF sp] simp_thms)
  then have both: "\<not> contains w (or_clause wher @ '' AND '' @ or_clause what)" by simp
  show ?thesis
    using c1 c2 both ne by (simp add: combined_clause_def contains_Nil)
qed

lemma plain_PUBYEAR: "plain_word ''PUBYEAR''" "\<not> contains ''PUBYEAR'' ''OR''" "\<not> contains ''PUBYEAR'' ''AND''"
  by (simp_all add: plain_word_def dquote_def contains.simps)

text \<open>
  C5 (what the code does). \<open>extract_term_query\<close> puts \<open>TS=(\<close> and \<open>)\<close> around the query
  without its year clauses, whatever is left of it, so the term half is never empty: of
  the four branches of the translation only the first two can be taken. A query that is
  a year clause alone is translated to \<open>TS=() AND PY=2018-2022\<close>, not to the year half
  alone, and the empty query to \<open>TS=()\<close>, not to the empty string.
\<close>

theorem wos_year_only_query:
  "convert_query_for_database q ''wos'' =
     Inr (''TS=('' @ remove_year_clause q @ '')'' @
          (case extract_year_query_wos q of None \<Rightarrow> [] | Some y \<Rightarrow> '' AND '' @ y)) \<and>
   build_search_query None None (Some (2018, 2022)) = '' PUBYEAR AFT 2018 AND PUBYEAR BEF 2022'' \<and>
   convert_query_for_database (build_search_query None None (Some (2018, 2022))) ''wos'' =
     Inr ''TS=() AND PY=2018-2022'' \<and>
   convert_query_for_database (build_search_query None None None) ''wos'' = Inr ''TS=()'' \<and>
   convert_query_for_database [] ''wos'' = Inr ''TS=()'' \<and>
   convert_query_for_database (build_search_query (Some [''cats*'']) None (Some (2018, 2022))) ''wos'' =
     Inr ''TS=((cats*)) AND PY=2018-2022''"
proof (intro conjI)
  show "convert_query_for_database q ''wos'' =
     Inr (''TS=('' @ remove_year_clause q @ '')'' @
          (case extract_year_query_wos q of None \<Rightarrow> [] | Some y \<Rightarrow> '' AND '' @ y))"
    by (rule wos_general)
  show "build_search_query None None (Some (2018, 2022)) = '' PUBYEAR AFT 2018 AND PUBYEAR BEF 2022''"
    by code_simp
  show "convert_query_for_database (build_search_query None None (Some (2018, 2022))) ''wos'' =
     Inr ''TS=() AND PY=2018-2022''"
    by code_simp
  show "convert_query_for_database (build_search_query None None None) ''wos'' = Inr ''TS=()''"
    by code_simp
  show "convert_query_for_database [] ''wos'' = Inr ''TS=()''"
    by code_simp
  show "convert_query_for_database (build_search_query (Some [''cats*'']) None (Some (2018, 2022))) ''wos'' =
     Inr ''TS=((cats*)) AND PY=2018-2022''"
    by code_simp
qed

section \<open>The Google Scholar translation\<close>

lemma take_prefix:
  assumes "take n xs = u @ v"
  shows "take (length u) xs = u"
proof -
  from assms obtain r where r: "xs = u @ v @ r" by (metis append_take_drop_id append.assoc)
  show ?thesis by (simp add: r)
qed

lemma replace_go_skip:
  assumes a: "\<not> contains w a" and b: "b = [] \<or> hd b \<notin> set w"
  shows "replace_go (CHR '' '' # w @ '' '') new (a @ b) =
         a @ replace_go (CHR '' '' # w @ '' '') new b"
  using a
proof (induction a)
  case Nil
  show ?case by simp
next
  case (Cons c t)
  let ?old = "CHR '' '' # w @ '' ''"
  from Cons.prems have t: "\<not> contains w t" by (simp add: contains.simps)
  have "take (length ?old) ((c # t) @ b) \<noteq> ?old"
  proof
    assume e: "take (length ?old) ((c # t) @ b) = ?old"
    have "take (length (CHR '' '' # w)) (c # t) = CHR '' '' # w"
    proof (cases b)
      case Nil
      with e have "take (length ?old) (c # t) = (CHR '' '' # w) @ '' ''" by simp
      then show ?thesis by (rule take_prefix)
    next
      case (Cons d r)
      with b have d: "d \<notin> set (tl (CHR '' '' # w))" by simp
      from e have "take (length ?old) ((c # t) @ d # r) = (CHR '' '' # w) @ '' ''"
        using Cons by simp
      then have "take (length (CHR '' '' # w)) ((c # t) @ d # r) = CHR '' '' # w"
        by (rule take_prefix)
      from straddle[OF this _ d] show ?thesis by simp
    qed
    then have "c # t = [CHR '' ''] @ w @ drop (length (CHR '' '' # w)) (c # t)"
      by (metis append_take_drop_id append_Cons append_Nil)
    then have "contains w (c # t)" unfolding contains_iff by blast
    with Cons.prems show False by simp
  qed
  then have ne: "\<not> (?old \<noteq> [] \<and> take (length ?old) (c # (t @ b)) = ?old)" by simp
  have "replace_go ?old new (c # (t @ b)) = c # replace_go ?old new (t @ b)"
    by (simp only: replace_go.simps(2) ne if_False)
  with Cons.IH[OF t] show ?case by simp
qed

lemma replace_go_hit:
  "replace_go (CHR '' '' # w @ '' '') new ((CHR '' '' # w @ '' '') @ b) =
   new @ replace_go (CHR '' '' # w @ '' '') new b"
  by simp

lemma replace_go_other:
  "c \<noteq> CHR '' '' \<Longrightarrow> replace_go (CHR '' '' # v) new (c # t) = c # replace_go (CHR '' '' # v) new t"
  by simp

lemma replace_go_join:
  assumes sp: "CHR '' '' \<notin> set w" and r: "rest = [] \<or> hd rest \<notin> set w"
  shows "\<forall>t \<in> set ts. \<not> contains w t \<Longrightarrow>
         replace_go (CHR '' '' # w @ '' '') new (py_join (CHR '' '' # w @ '' '') ts @ rest) =
         py_join new ts @ replace_go (CHR '' '' # w @ '' '') new rest"
proof (induction ts)
  case Nil
  show ?case by simp
next
  case (Cons x ts)
  let ?old = "CHR '' '' # w @ '' ''"
  from Cons.prems have x: "\<not> contains w x" by simp
  show ?case
  proof (cases ts)
    case Nil
    then show ?thesis using replace_go_skip[OF x r] by simp
  next
    case (Cons y ys)
    let ?b = "py_join ?old ts @ rest"
    have "replace_go ?old new (x @ (?old @ ?b)) = x @ replace_go ?old new (?old @ ?b)"
      by (rule replace_go_skip[OF x]) (simp add: sp)
    also have "replace_go ?old new (?old @ ?b) = new @ replace_go ?old new ?b"
      by (rule replace_go_hit)
    also have "replace_go ?old new ?b = py_join new ts @ replace_go ?old new rest"
      using Cons.IH Cons.prems by simp
    finally show ?thesis using Cons by simp
  qed
qed

lemma contains_digits:
  assumes w: "w \<noteq> []"
  shows "d \<noteq> [] \<Longrightarrow> \<forall>c \<in> set d. c \<notin> set w \<Longrightarrow>
         contains w (a @ d @ b) \<longleftrightarrow> contains w a \<or> contains w b"
proof (induction d arbitrary: a)
  case Nil
  then show ?case by simp
next
  case (Cons c d)
  from Cons.prems have c: "c \<notin> set w" by simp
  show ?case
  proof (cases "d = []")
    case True
    then show ?thesis using contains_sep[OF c, of a b] by simp
  next
    case False
    from Cons.IH[OF False, of "[]"] Cons.prems
    have "contains w (d @ b) \<longleftrightarrow> contains w b" using w by (simp add: contains_Nil)
    then show ?thesis using contains_sep[OF c, of a "d @ b"] by simp
  qed
qed

lemma digit_no_op: "is_digit c \<Longrightarrow> c \<notin> set ''AND'' \<and> c \<notin> set ''OR''"
  by (auto simp: is_digit_def)

lemma digits_free:
  assumes "digits d"
  shows "contains ''AND'' (a @ d @ b) \<longleftrightarrow> contains ''AND'' a \<or> contains ''AND'' b"
    and "contains ''OR'' (a @ d @ b) \<longleftrightarrow> contains ''OR'' a \<or> contains ''OR'' b"
proof -
  from assms have ne: "d \<noteq> []" and a: "\<forall>c \<in> set d. c \<notin> set ''AND''"
    and o: "\<forall>c \<in> set d. c \<notin> set ''OR''"
    using digit_no_op by (auto simp: digits_def list_all_iff)
  show "contains ''AND'' (a @ d @ b) \<longleftrightarrow> contains ''AND'' a \<or> contains ''AND'' b"
    by (rule contains_digits[OF _ ne a]) simp
  show "contains ''OR'' (a @ d @ b) \<longleftrightarrow> contains ''OR'' a \<or> contains ''OR'' b"
    by (rule contains_digits[OF _ ne o]) simp
qed

lemma scholar_clause_truthy:
  "truthy xs \<Longrightarrow> scholar_clause xs = ''('' @ py_join '' '' (format_terms (the xs)) @ '')''"
  by (cases xs) (auto simp: truthy_def scholar_clause_def split: list.splits)

lemma scholar_clause_absent: "\<not> truthy xs \<Longrightarrow> scholar_clause xs = []"
  by (cases xs) (auto simp: truthy_def scholar_clause_def split: list.splits)

lemma plain_ops: "plain_word ''AND''" "plain_word ''OR''" "\<not> contains ''AND'' ''OR''"
  "\<not> contains ''OR'' ''AND''" "\<not> contains ''AND'' ''AND'' = False" "\<not> contains ''OR'' ''OR'' = False"
  by (simp_all add: plain_word_def dquote_def contains.simps)

lemma free_scholar_clause:
  assumes w: "plain_word w" and t: "\<forall>t \<in> set (terms_of xs). \<not> contains w t"
  shows "\<not> contains w (scholar_clause xs)"
proof (cases "truthy xs")
  case True
  then obtain ts where xs: "xs = Some ts" by (cases xs) (auto simp: truthy_def)
  with t have "\<forall>t \<in> set (format_terms ts). \<not> contains w t"
    by (intro free_format_terms[OF w]) (simp add: terms_of_def)
  from free_join_space[OF w this] have "\<not> contains w (py_join '' '' (format_terms ts))" .
  from free_parens[OF w this] show ?thesis using scholar_clause_truthy[OF True] xs by simp
next
  case False
  with w show ?thesis by (simp add: scholar_clause_absent plain_word_def contains_Nil)
qed

lemma free_scholar_form:
  assumes w: "plain_word w"
    and t1: "\<forall>t \<in> set (terms_of wher). \<not> contains w t"
    and t2: "\<forall>t \<in> set (terms_of what). \<not> contains w t"
  shows "\<not> contains w (scholar_form wher what)"
  unfolding scholar_form_def
  by (rule free_join_space[OF w])
     (simp add: free_scholar_clause[OF w t1] free_scholar_clause[OF w t2])

lemma scholar_form_strip: "py_strip (scholar_form wher what) = scholar_form wher what"
proof (cases "scholar_form wher what = []")
  case True
  then show ?thesis by (simp add: py_strip_Nil)
next
  case False
  have h: "hd (scholar_clause xs) = CHR ''(''" "last (scholar_clause xs) = CHR '')''"
    if "scholar_clause xs \<noteq> []" for xs
    using that by (cases "truthy xs"; simp add: scholar_clause_truthy scholar_clause_absent)+
  have "hd (scholar_form wher what) = CHR ''(''" "last (scholar_form wher what) = CHR '')''"
    using False h[of wher] h[of what] by (auto simp: scholar_form_def)
  then show ?thesis using False by (intro py_strip_id) (simp_all add: py_isspace_def)
qed

lemma or_to_space:
  assumes t: "\<forall>t \<in> set (terms_of xs). \<not> contains ''OR'' t"
    and r: "rest = [] \<or> hd rest \<notin> set ''OR''"
  shows "replace_go '' OR '' '' '' (or_clause xs @ rest) =
         scholar_clause xs @ replace_go '' OR '' '' '' rest"
proof (cases "truthy xs")
  case True
  then obtain ts where xs: "xs = Some ts" by (cases xs) (auto simp: truthy_def)
  with t have f: "\<forall>t \<in> set (format_terms ts). \<not> contains ''OR'' t"
    by (intro free_format_terms[OF plain_ops(2)]) (simp add: terms_of_def)
  let ?J = "py_join '' OR '' (format_terms ts)"
  have j: "replace_go '' OR '' '' '' (?J @ CHR '')'' # rest) =
           py_join '' '' (format_terms ts) @ replace_go '' OR '' '' '' (CHR '')'' # rest)"
    using replace_go_join[where w = "''OR''" and rest = "CHR '')'' # rest" and new = "'' ''", OF _ _ f]
    by simp
  have "replace_go '' OR '' '' '' (CHR ''('' # ?J @ CHR '')'' # rest) =
        CHR ''('' # py_join '' '' (format_terms ts) @ CHR '')'' # replace_go '' OR '' '' '' rest"
  proof -
    have o: "replace_go '' OR '' '' '' (CHR ''('' # X) = CHR ''('' # replace_go '' OR '' '' '' X"
      and c: "replace_go '' OR '' '' '' (CHR '')'' # X) = CHR '')'' # replace_go '' OR '' '' '' X"
      for X by simp_all
    show ?thesis by (simp only: o j c)
  qed
  then show ?thesis using or_clause_truthy[OF True] scholar_clause_truthy[OF True] xs by simp
next
  case False
  then show ?thesis by (simp add: or_clause_absent scholar_clause_absent)
qed

lemma and_to_space:
  assumes t1: "\<forall>t \<in> set (terms_of wher). \<not> contains ''AND'' t"
    and t2: "\<forall>t \<in> set (terms_of what). \<not> contains ''AND'' t"
    and r: "rest = [] \<or> hd rest \<notin> set ''AND''"
  shows "replace_go '' AND '' '' '' (combined_clause wher what @ rest) =
         py_join '' '' (filter (\<lambda>clause. clause \<noteq> []) [or_clause wher, or_clause what]) @
         replace_go '' AND '' '' '' rest"
proof -
  note c1 = free_or_clause[OF plain_ops(1) plain_ops(3) t1]
    and c2 = free_or_clause[OF plain_ops(1) plain_ops(3) t2]
  have f: "\<forall>c \<in> set (filter (\<lambda>clause. clause \<noteq> []) [or_clause wher, or_clause what]).
             \<not> contains ''AND'' c" using c1 c2 by simp
  from replace_go_join[where w = "''AND''" and rest = rest and new = "'' ''", OF _ r f]
  show ?thesis unfolding combined_clause_def by simp
qed

lemma or_to_space_both:
  assumes t1: "\<forall>t \<in> set (terms_of wher). \<not> contains ''OR'' t"
    and t2: "\<forall>t \<in> set (terms_of what). \<not> contains ''OR'' t"
    and r: "rest = [] \<or> hd rest \<notin> set ''OR''"
  shows "replace_go '' OR '' '' ''
           (py_join '' '' (filter (\<lambda>clause. clause \<noteq> []) [or_clause wher, or_clause what]) @ rest) =
         scholar_form wher what @ replace_go '' OR '' '' '' rest"
proof -
  have ne: "or_clause xs \<noteq> [] \<longleftrightarrow> truthy xs" "scholar_clause xs \<noteq> [] \<longleftrightarrow> truthy xs" for xs
    by (cases "truthy xs"; simp add: or_clause_truthy or_clause_absent scholar_clause_truthy
          scholar_clause_absent)+
  show ?thesis
  proof (cases "truthy wher \<and> truthy what")
    case True
    let ?B = "or_clause what"
    from True obtain b where B: "?B = CHR ''('' # b" by (auto simp: or_clause_truthy)
    have "replace_go '' OR '' '' '' (or_clause wher @ (CHR '' '' # ?B @ rest)) =
          scholar_clause wher @ replace_go '' OR '' '' '' (CHR '' '' # ?B @ rest)"
      by (rule or_to_space[OF t1]) simp
    also have "replace_go '' OR '' '' '' (CHR '' '' # ?B @ rest) =
               CHR '' '' # replace_go '' OR '' '' '' (?B @ rest)"
      unfolding B by simp
    also have "replace_go '' OR '' '' '' (?B @ rest) =
               scholar_clause what @ replace_go '' OR '' '' '' rest"
      by (rule or_to_space[OF t2 r])
    finally show ?thesis using True by (simp add: scholar_form_def ne)
  next
    case False
    then consider "truthy wher" "\<not> truthy what" | "\<not> truthy wher" "truthy what"
      | "\<not> truthy wher" "\<not> truthy what" by blast
    then show ?thesis
    proof cases
      case 1
      then show ?thesis using or_to_space[OF t1 r] by (simp add: scholar_form_def ne or_clause_absent scholar_clause_absent)
    next
      case 2
      then show ?thesis using or_to_space[OF t2 r] by (simp add: scholar_form_def ne or_clause_absent scholar_clause_absent)
    next
      case 3
      then show ?thesis by (simp add: scholar_form_def ne or_clause_absent scholar_clause_absent)
    qed
  qed
qed

lemma year_and:
  assumes s: "digits s" and e: "digits e"
  shows "replace_go '' AND '' '' '' ('' PUBYEAR AFT '' @ s @ '' AND PUBYEAR BEF '' @ e) =
         '' PUBYEAR AFT '' @ s @ '' PUBYEAR BEF '' @ e"
proof -
  have a: "\<not> contains ''AND'' ('' PUBYEAR AFT '' @ s @ [])"
    unfolding digits_free(1)[OF s] by (simp add: contains.simps)
  have b: "\<not> contains ''AND'' (''PUBYEAR BEF '' @ e @ [])"
    unfolding digits_free(1)[OF e] by (simp add: contains.simps)
  have "replace_go '' AND '' '' '' (('' PUBYEAR AFT '' @ s) @ ('' AND '' @ (''PUBYEAR BEF '' @ e))) =
        ('' PUBYEAR AFT '' @ s) @ replace_go '' AND '' '' '' ('' AND '' @ (''PUBYEAR BEF '' @ e))"
    using replace_go_skip[where w = "''AND''" and a = "'' PUBYEAR AFT '' @ s"
                            and b = "'' AND '' @ (''PUBYEAR BEF '' @ e)" and new = "'' ''"] a
    by simp
  also have "replace_go '' AND '' '' '' ('' AND '' @ (''PUBYEAR BEF '' @ e)) =
             '' '' @ replace_go '' AND '' '' '' (''PUBYEAR BEF '' @ e)"
    using replace_go_hit[where w = "''AND''" and b = "''PUBYEAR BEF '' @ e" and new = "'' ''"]
    by simp
  also have "replace_go '' AND '' '' '' (''PUBYEAR BEF '' @ e) = ''PUBYEAR BEF '' @ e"
    using replace_go_skip[where w = "''AND''" and a = "''PUBYEAR BEF '' @ e" and b = "[]"
                            and new = "'' ''"] b
    by simp
  finally show ?thesis by simp
qed

lemma year_or:
  assumes s: "digits s" and e: "digits e"
  shows "replace_go '' OR '' '' '' ('' PUBYEAR AFT '' @ s @ '' PUBYEAR BEF '' @ e) =
         '' PUBYEAR AFT '' @ s @ '' PUBYEAR BEF '' @ e"
proof -
  have b: "\<not> contains ''OR'' ('' PUBYEAR BEF '' @ e @ [])"
    unfolding digits_free(2)[OF e] by (simp add: contains.simps)
  have a: "\<not> contains ''OR'' ('' PUBYEAR AFT '' @ s @ ('' PUBYEAR BEF '' @ e))"
    unfolding digits_free(2)[OF s] using b by (simp add: contains.simps)
  show ?thesis
    using replace_go_skip[where w = "''OR''" and a = "'' PUBYEAR AFT '' @ s @ '' PUBYEAR BEF '' @ e"
                            and b = "[]" and new = "'' ''"] a
    by simp
qed

lemma convert_scholar:
  "py_lower database = ''google_scholar'' \<Longrightarrow>
   convert_query_for_database q database =
     Inr (py_strip (remove_year_clause (replace_go '' OR '' '' '' (replace_go '' AND '' '' '' q))))"
  unfolding convert_query_for_database_def by (simp add: Let_def py_replace_def)

lemma year_removed:
  assumes s: "digits s" and e: "digits e"
  shows "re_sub_from remove_year_pattern [] (Some CHR '' '')
           (''PUBYEAR AFT '' @ s @ '' PUBYEAR BEF '' @ e) = '' ''"
proof -
  let ?p = "Some CHR '' ''"
  let ?r = "'' PUBYEAR BEF '' @ e"
  have nw: "\<not> word_before ?p" by (simp add: word_before_def is_word_def)
  have nd1: "no_digit_next ?r" by (simp add: no_digit_next_def is_digit_def)
  have nd2: "no_digit_next []" by (simp add: no_digit_next_def)
  have wa1: "\<not> word_after ?r" by (simp add: word_after_def is_word_def)
  have wa2: "\<not> word_after []" by (simp add: word_after_def)
  have cs: "is_word (last s)" by (rule is_digit_word[OF digits_last[OF s]])
  have ce: "is_word (last e)" by (rule is_digit_word[OF digits_last[OF e]])
  from year_item_AFT[OF s nd1, of ?p "[]"] obtain o1 where
    "rmatch year_item (?p, ''AFT '' @ s @ ?r, []) = (Some (last s), ?r, []) # o1" by blast
  then have yi1: "rmatch year_item (?p, (''AFT '' @ s) @ ?r, []) = (Some (last s), ?r, []) # o1"
    by simp
  from remove_first_single[OF nw yi1 cs wa1] obtain g1 os1 where
    "rmatch remove_year_pattern (?p, ''PUBYEAR '' @ (''AFT '' @ s) @ ?r, []) =
       (Some (last s), ?r, g1) # os1" by auto
  then have m1: "rmatch remove_year_pattern (?p, ''PUBYEAR AFT '' @ s @ ?r, []) =
       (Some (last s), ?r, g1) # os1" by simp
  from re_sub_from_match[OF m1, of "[]"]
  have 1: "re_sub_from remove_year_pattern [] ?p (''PUBYEAR AFT '' @ s @ ?r) =
           re_sub_from remove_year_pattern [] (Some (last s)) ?r" by simp
  from year_item_BEF[OF e nd2, of ?p "[]"] obtain o2 where
    "rmatch year_item (?p, ''BEF '' @ e @ [], []) = (Some (last e), [], []) # o2" by blast
  then have yi2: "rmatch year_item (?p, (''BEF '' @ e) @ [], []) = (Some (last e), [], []) # o2"
    by simp
  from remove_first_single[OF nw yi2 ce wa2] obtain g2 os2 where
    "rmatch remove_year_pattern (?p, ''PUBYEAR '' @ (''BEF '' @ e) @ [], []) =
       (Some (last e), [], g2) # os2" by auto
  then have m2: "rmatch remove_year_pattern (?p, ''PUBYEAR BEF '' @ e, []) =
       (Some (last e), [], g2) # os2" by simp
  from re_sub_from_match[OF m2, of "[]"]
  have 2: "re_sub_from remove_year_pattern [] ?p (''PUBYEAR BEF '' @ e) = []"
    by (simp add: remove_year_no_match_Nil)
  have sp: "\<not> contains ''PUBYEAR'' '' ''" by (simp add: contains.simps)
  have "re_sub_from remove_year_pattern [] (Some (last s)) ('' '' @ (''PUBYEAR BEF '' @ e)) =
        '' '' @ re_sub_from remove_year_pattern []
                  (if '' '' = [] then Some (last s) else Some (last '' '')) (''PUBYEAR BEF '' @ e)"
    by (rule re_sub_from_skip) (rule remove_year_no_match[OF sp], simp_all)
  with 2 have 3: "re_sub_from remove_year_pattern [] (Some (last s)) ?r = '' ''" by simp
  from 1 3 show ?thesis by simp
qed

lemma remove_after_form:
  assumes F: "\<not> contains ''PUBYEAR'' F" and s: "digits s" and e: "digits e"
  shows "re_sub remove_year_pattern [] (F @ '' PUBYEAR AFT '' @ s @ '' PUBYEAR BEF '' @ e) =
         (F @ '' '') @ '' ''"
proof -
  let ?pre = "F @ '' ''"
  let ?suffix = "''PUBYEAR AFT '' @ s @ '' PUBYEAR BEF '' @ e"
  from F have pre: "\<not> contains ''PUBYEAR'' ?pre" by (simp add: contains_sep_snoc)
  have "re_sub_from remove_year_pattern [] None (?pre @ ?suffix) =
          ?pre @ re_sub_from remove_year_pattern []
                   (if ?pre = [] then None else Some (last ?pre)) ?suffix"
    by (rule re_sub_from_skip) (rule remove_year_no_match[OF pre], simp_all)
  then show ?thesis using year_removed[OF s e] unfolding re_sub_def by simp
qed

section \<open>What a replacement by a space can leave\<close>

lemma replace_go_match:
  assumes "old \<noteq> []" "take (length old) s = old"
  shows "replace_go old new s = new @ replace_go old new (drop (length old) s)"
  using assms by (cases s) auto

lemma replace_go_nomatch:
  "\<not> (old \<noteq> [] \<and> take (length old) (c # t) = old) \<Longrightarrow>
     replace_go old new (c # t) = c # replace_go old new t"
  by auto

lemma take_eq_length: "take (length old) xs = old \<Longrightarrow> length old \<le> length xs"
proof -
  assume "take (length old) xs = old"
  then have "length (take (length old) xs) = length old" by simp
  then show ?thesis by simp
qed

lemma take_le: "n \<le> length xs \<Longrightarrow> take n (xs @ ys) = take n xs"
  by simp

lemma drop_le: "n \<le> length xs \<Longrightarrow> drop n (xs @ ys) = drop n xs @ ys"
  by simp

lemma replace_go_sep:
  assumes c: "c \<notin> set old"
  shows "replace_go old new (a @ c # b) = replace_go old new a @ c # replace_go old new b"
proof (induction "length a" arbitrary: a rule: less_induct)
  case less
  show ?case
  proof (cases a)
    case Nil
    have "\<not> (old \<noteq> [] \<and> take (length old) (c # b) = old)"
    proof (cases old)
      case Nil
      then show ?thesis by simp
    next
      case (Cons x xs)
      with c have "x \<noteq> c" by auto
      with Cons show ?thesis by simp
    qed
    from replace_go_nomatch[OF this] show ?thesis using Nil by simp
  next
    case (Cons x a')
    show ?thesis
    proof (cases "old \<noteq> [] \<and> take (length old) (x # a') = old")
      case True
      then have l: "length old \<le> length (x # a')" by (intro take_eq_length) simp
      have "take (length old) ((x # a') @ c # b) = take (length old) (x # a')"
        using l by (intro take_le)
      also have "\<dots> = old" using True by blast
      finally have t: "take (length old) ((x # a') @ c # b) = old" .
      have d: "drop (length old) ((x # a') @ c # b) = drop (length old) (x # a') @ c # b"
        using l by (intro drop_le)
      have "length (drop (length old) (x # a')) < length a" using True Cons by (cases old) auto
      from less[OF this]
      have i: "replace_go old new (drop (length old) (x # a') @ c # b) =
            replace_go old new (drop (length old) (x # a')) @ c # replace_go old new b" .
      have "replace_go old new ((x # a') @ c # b) =
            new @ replace_go old new (drop (length old) (x # a') @ c # b)"
        using replace_go_match[OF conjunct1[OF True] t] d by simp
      moreover have "replace_go old new (x # a') =
            new @ replace_go old new (drop (length old) (x # a'))"
        by (rule replace_go_match[OF conjunct1[OF True] conjunct2[OF True]])
      ultimately show ?thesis using i Cons by simp
    next
      case False
      have n: "\<not> (old \<noteq> [] \<and> take (length old) (x # (a' @ c # b)) = old)"
      proof
        assume m: "old \<noteq> [] \<and> take (length old) (x # (a' @ c # b)) = old"
        then have m2: "take (length old) ((x # a') @ c # b) = old" by simp
        from c have "c \<notin> set (tl old)" by (cases old) auto
        from straddle[OF m2 _ this] have "take (length old) (x # a') = old" by simp
        with m False show False by simp
      qed
      have "length a' < length a" using Cons by simp
      from less[OF this]
      have "replace_go old new (a' @ c # b) = replace_go old new a' @ c # replace_go old new b" .
      then show ?thesis
        using replace_go_nomatch[OF False] replace_go_nomatch[OF n] Cons by simp
    qed
  qed
qed

lemma replace_copy:
  assumes o: "old \<noteq> []" "hd old = CHR '' ''"
  shows "CHR '' '' \<notin> set v \<Longrightarrow> replace_go old '' '' s = v @ r \<Longrightarrow>
     \<exists>t. s = v @ t \<and> r = replace_go old '' '' t"
proof (induction v arbitrary: s r)
  case Nil
  then show ?case by simp
next
  case (Cons x v)
  from Cons.prems(1) have x: "x \<noteq> CHR '' ''" and v: "CHR '' '' \<notin> set v" by auto
  from Cons.prems(2) obtain c s' where s: "s = c # s'" by (cases s) auto
  have nm: "\<not> (old \<noteq> [] \<and> take (length old) (c # s') = old)"
  proof
    assume m: "old \<noteq> [] \<and> take (length old) (c # s') = old"
    from replace_go_match[OF conjunct1[OF m] conjunct2[OF m], of "'' ''"] Cons.prems(2) s x
    show False by simp
  qed
  from replace_go_nomatch[OF nm, of "'' ''"] Cons.prems(2) s
  have "c = x" "replace_go old '' '' s' = v @ r" by simp_all
  from Cons.IH[OF v this(2)] obtain t where "s' = v @ t" "r = replace_go old '' '' t"
    by blast
  with s \<open>c = x\<close> show ?case by simp
qed

lemma replace_space:
  assumes o: "old \<noteq> []" and r: "replace_go old '' '' s = CHR '' '' # r"
  shows "(\<exists>t. s = CHR '' '' # t \<and> r = replace_go old '' '' t \<and> take (length old) s \<noteq> old) \<or>
         (\<exists>t. s = old @ t \<and> r = replace_go old '' '' t)"
proof -
  from r obtain c s' where s: "s = c # s'" by (cases s) auto
  show ?thesis
  proof (cases "take (length old) (c # s') = old")
    case True
    then have "c # s' = old @ drop (length old) (c # s')" by (metis append_take_drop_id)
    moreover have "r = replace_go old '' '' (drop (length old) (c # s'))"
      using replace_go_match[OF o True, of "'' ''"] r s by simp
    ultimately show ?thesis using s by blast
  next
    case False
    then have "\<not> (old \<noteq> [] \<and> take (length old) (c # s') = old)" by simp
    from replace_go_nomatch[OF this, of "'' ''"] r s False
    have "s = CHR '' '' # s' \<and> r = replace_go old '' '' s' \<and> take (length old) s \<noteq> old"
      by simp
    then show ?thesis by blast
  qed
qed

lemma replace_split:
  assumes o: "old \<noteq> []"
  shows "replace_go old '' '' s = a @ z \<Longrightarrow>
     \<exists>s1 s2. s = s1 @ s2 \<and> replace_go old '' '' s2 = z"
proof (induction "length s" arbitrary: s a rule: less_induct)
  case less
  show ?case
  proof (cases a)
    case Nil
    with less.prems have "s = [] @ s \<and> replace_go old '' '' s = z" by simp
    then show ?thesis by blast
  next
    case (Cons x a')
    with less.prems obtain c s' where s: "s = c # s'" by (cases s) auto
    show ?thesis
    proof (cases "take (length old) (c # s') = old")
      case True
      let ?d = "drop (length old) (c # s')"
      have e: "c # s' = old @ ?d" using True by (metis append_take_drop_id)
      from replace_go_match[OF o True, of "'' ''"]
      have "replace_go old '' '' (c # s') = '' '' @ replace_go old '' '' ?d" .
      with less.prems s Cons have "CHR '' '' # replace_go old '' '' ?d = x # a' @ z" by simp
      then have "replace_go old '' '' ?d = a' @ z" by auto
      moreover have "length ?d < length s" using s o by simp
      ultimately obtain s1 s2 where "?d = s1 @ s2" "replace_go old '' '' s2 = z"
        using less.hyps by blast
      with e s have "s = (old @ s1) @ s2 \<and> replace_go old '' '' s2 = z" by simp
      then show ?thesis by blast
    next
      case False
      then have "\<not> (old \<noteq> [] \<and> take (length old) (c # s') = old)" by simp
      from replace_go_nomatch[OF this, of "'' ''"]
      have "replace_go old '' '' s' = a' @ z" using less.prems s Cons by simp
      moreover have "length s' < length s" using s by simp
      ultimately obtain s1 s2 where "s' = s1 @ s2" "replace_go old '' '' s2 = z"
        using less.hyps by blast
      with s have "s = (c # s1) @ s2 \<and> replace_go old '' '' s2 = z" by simp
      then show ?thesis by blast
    qed
  qed
qed

lemma replace_keeps_word:
  assumes o: "old \<noteq> []" "hd old = CHR '' ''"
    and u: "CHR '' '' \<notin> set u" and c: "contains u (replace_go old '' '' s)"
  shows "contains u s"
proof -
  from c obtain a b where "replace_go old '' '' s = a @ u @ b"
    unfolding contains_iff by blast
  from replace_split[OF o(1) this] obtain s1 s2 where
    s: "s = s1 @ s2" "replace_go old '' '' s2 = u @ b" by blast
  from replace_copy[OF o u s(2)] obtain t where "s2 = u @ t" by blast
  with s show ?thesis unfolding contains_iff by blast
qed

lemma replace_starts:
  assumes o: "old \<noteq> []" "hd old = CHR '' ''" and v: "CHR '' '' \<notin> set v"
    and r: "replace_go old '' '' s = v @ CHR '' '' # r"
  shows "\<exists>t. s = v @ CHR '' '' # t"
proof -
  from replace_copy[OF o v r] obtain t where
    t: "s = v @ t" "CHR '' '' # r = replace_go old '' '' t" by blast
  from o obtain w where w: "old = CHR '' '' # w" by (cases old) auto
  from replace_space[OF o(1) t(2)[symmetric]] obtain t' where "t = CHR '' '' # t'"
    unfolding w by auto
  with t show ?thesis by blast
qed

lemma replace_token:
  assumes o: "old \<noteq> []" "hd old = CHR '' ''" and v: "CHR '' '' \<notin> set v"
    and c: "contains (CHR '' '' # v @ '' '') (replace_go old '' '' s)"
  shows "(CHR '' '' # v @ '' '' \<noteq> old \<and> contains (CHR '' '' # v @ '' '') s) \<or>
         contains (old @ v @ '' '') s"
proof -
  from c obtain a b where "replace_go old '' '' s = a @ (CHR '' '' # v @ '' '') @ b"
    unfolding contains_iff by blast
  from replace_split[OF o(1) this] obtain s1 s2 where
    s: "s = s1 @ s2" "replace_go old '' '' s2 = CHR '' '' # (v @ CHR '' '' # b)" by auto
  from replace_space[OF o(1) s(2)] show ?thesis
  proof
    assume "\<exists>t. s2 = CHR '' '' # t \<and> v @ CHR '' '' # b = replace_go old '' '' t \<and>
              take (length old) s2 \<noteq> old"
    then obtain t where t: "s2 = CHR '' '' # t" "replace_go old '' '' t = v @ CHR '' '' # b"
      and nm: "take (length old) s2 \<noteq> old" by auto
    from replace_starts[OF o v t(2)] obtain t' where t': "t = v @ CHR '' '' # t'" by blast
    with t have s2: "s2 = (CHR '' '' # v @ '' '') @ t'" by simp
    then have "take (length (CHR '' '' # v @ '' '')) s2 = CHR '' '' # v @ '' ''" by simp
    with nm have "CHR '' '' # v @ '' '' \<noteq> old" by auto
    moreover from s s2 have "contains (CHR '' '' # v @ '' '') s" unfolding contains_iff by blast
    ultimately show ?thesis by blast
  next
    assume "\<exists>t. s2 = old @ t \<and> v @ CHR '' '' # b = replace_go old '' '' t"
    then obtain t where t: "s2 = old @ t" "replace_go old '' '' t = v @ CHR '' '' # b" by auto
    from replace_starts[OF o v t(2)] obtain t' where t': "t = v @ CHR '' '' # t'" by blast
    with t s have "s = s1 @ (old @ v @ '' '') @ t'" by simp
    then have "contains (old @ v @ '' '') s" unfolding contains_iff by blast
    then show ?thesis by blast
  qed
qed

lemma replace_two_tokens:
  assumes W: "W \<noteq> []" "hd W = CHR '' ''"
    and v1: "CHR '' '' \<notin> set v1" and v2: "CHR '' '' \<notin> set v2"
    and c: "contains (CHR '' '' # v1 @ CHR '' '' # v2 @ '' '') (replace_go (W @ '' '') '' '' s)"
  shows "contains (CHR '' '' # v1 @ CHR '' '' # v2 @ '' '') s \<or>
         contains (CHR '' '' # v1 @ (W @ '' '') @ v2 @ '' '') s"
proof -
  let ?old = "W @ '' ''"
  have o: "?old \<noteq> []" "hd ?old = CHR '' ''" using W by simp_all
  from c obtain a b where "replace_go ?old '' '' s = a @ (CHR '' '' # v1 @ CHR '' '' # v2 @ '' '') @ b"
    unfolding contains_iff by blast
  from replace_split[OF o(1) this] obtain s1 s2 where
    s: "s = s1 @ s2" "replace_go ?old '' '' s2 = CHR '' '' # (v1 @ CHR '' '' # v2 @ CHR '' '' # b)"
    by auto
  have "\<exists>x t. s2 = x @ CHR '' '' # t \<and>
          replace_go ?old '' '' t = v1 @ CHR '' '' # (v2 @ CHR '' '' # b)"
    using replace_space[OF o(1) s(2)]
  proof
    assume "\<exists>t. s2 = CHR '' '' # t \<and>
        v1 @ CHR '' '' # v2 @ CHR '' '' # b = replace_go ?old '' '' t \<and> take (length ?old) s2 \<noteq> ?old"
    then obtain t where "s2 = [] @ CHR '' '' # t"
      "replace_go ?old '' '' t = v1 @ CHR '' '' # (v2 @ CHR '' '' # b)" by auto
    then show ?thesis by blast
  next
    assume "\<exists>t. s2 = ?old @ t \<and> v1 @ CHR '' '' # v2 @ CHR '' '' # b = replace_go ?old '' '' t"
    then obtain t where "s2 = W @ CHR '' '' # t"
      "replace_go ?old '' '' t = v1 @ CHR '' '' # (v2 @ CHR '' '' # b)" by auto
    then show ?thesis by blast
  qed
  then obtain x t where
    x: "s2 = x @ CHR '' '' # t" "replace_go ?old '' '' t = v1 @ CHR '' '' # (v2 @ CHR '' '' # b)"
    by blast
  from replace_copy[OF o v1 x(2)] obtain t1 where
    t1: "t = v1 @ t1" "replace_go ?old '' '' t1 = CHR '' '' # (v2 @ CHR '' '' # b)" by metis
  from replace_space[OF o(1) t1(2)] show ?thesis
  proof
    assume "\<exists>t2. t1 = CHR '' '' # t2 \<and> v2 @ CHR '' '' # b = replace_go ?old '' '' t2 \<and>
              take (length ?old) t1 \<noteq> ?old"
    then obtain t2 where t2: "t1 = CHR '' '' # t2" "replace_go ?old '' '' t2 = v2 @ CHR '' '' # b"
      by auto
    from replace_starts[OF o v2 t2(2)] obtain t3 where "t2 = v2 @ CHR '' '' # t3" by blast
    with s x t1 t2 have "s = (s1 @ x) @ (CHR '' '' # v1 @ CHR '' '' # v2 @ '' '') @ t3" by simp
    then have "contains (CHR '' '' # v1 @ CHR '' '' # v2 @ '' '') s" unfolding contains_iff by blast
    then show ?thesis by blast
  next
    assume "\<exists>t2. t1 = ?old @ t2 \<and> v2 @ CHR '' '' # b = replace_go ?old '' '' t2"
    then obtain t2 where t2: "t1 = ?old @ t2" "replace_go ?old '' '' t2 = v2 @ CHR '' '' # b"
      by auto
    from replace_starts[OF o v2 t2(2)] obtain t3 where "t2 = v2 @ CHR '' '' # t3" by blast
    with s x t1 t2 have "s = (s1 @ x) @ (CHR '' '' # v1 @ ?old @ v2 @ '' '') @ t3" by simp
    then have "contains (CHR '' '' # v1 @ ?old @ v2 @ '' '') s" unfolding contains_iff by blast
    then show ?thesis by blast
  qed
qed

lemma and_leaves_no_and:
  "\<not> contains '' AND AND '' s \<Longrightarrow> \<not> contains '' AND '' (replace_go '' AND '' '' '' s)"
  using replace_token[where old = "'' AND ''" and v = "''AND''" and s = s] by auto

lemma or_leaves_no_or:
  "\<not> contains '' OR OR '' s \<Longrightarrow> \<not> contains '' OR '' (replace_go '' OR '' '' '' s)"
  using replace_token[where old = "'' OR ''" and v = "''OR''" and s = s] by auto

lemma or_makes_no_and:
  assumes "\<not> contains '' AND '' s"
  shows "\<not> contains '' AND '' (replace_go '' OR '' '' '' s)"
proof
  assume "contains '' AND '' (replace_go '' OR '' '' '' s)"
  from replace_token[where old = "'' OR ''" and v = "''AND''" and s = s, simplified, OF this]
  have "contains '' AND '' s \<or> contains '' OR AND '' s" by simp
  moreover have "contains '' AND '' s" if "contains '' OR AND '' s"
  proof -
    from that obtain a b where "s = a @ '' OR AND '' @ b" unfolding contains_iff by blast
    then have "s = (a @ '' OR'') @ '' AND '' @ b" by simp
    then show ?thesis unfolding contains_iff by blast
  qed
  ultimately show False using assms by blast
qed

lemma and_makes_no_double_or:
  assumes "\<not> contains '' OR OR '' s" "\<not> contains '' OR AND OR '' s"
  shows "\<not> contains '' OR OR '' (replace_go '' AND '' '' '' s)"
  using replace_two_tokens[where W = "'' AND''" and ?v1.0 = "''OR''" and ?v2.0 = "''OR''" and s = s]
    assms by auto

lemma whole_combined: "whole_clause (combined_clause wher what)"
proof -
  have o: "or_clause xs = [] \<or> (\<exists>m. or_clause xs = CHR ''('' # m @ '')'')" for xs
    by (cases "truthy xs") (auto simp: or_clause_truthy or_clause_absent)
  show ?thesis
    using o[of wher] o[of what] unfolding whole_clause_def combined_clause_def by auto
qed

lemma replace_whole:
  assumes c: "whole_clause c" and p: "CHR '')'' \<notin> set v"
  shows "replace_go (CHR '' '' # v) new (c @ rest) =
           replace_go (CHR '' '' # v) new c @ replace_go (CHR '' '' # v) new rest"
    and "whole_clause (replace_go (CHR '' '' # v) new c)"
proof -
  let ?old = "CHR '' '' # v"
  have p': "CHR '')'' \<notin> set ?old" using p by simp
  show "replace_go ?old new (c @ rest) = replace_go ?old new c @ replace_go ?old new rest"
  proof (cases "c = []")
    case True
    then show ?thesis by simp
  next
    case False
    with c obtain m where m: "c = (CHR ''('' # m) @ CHR '')'' # []" by (auto simp: whole_clause_def)
    have "replace_go ?old new ((CHR ''('' # m) @ CHR '')'' # rest) =
          replace_go ?old new (CHR ''('' # m) @ CHR '')'' # replace_go ?old new rest"
      by (rule replace_go_sep[OF p'])
    moreover have "replace_go ?old new ((CHR ''('' # m) @ CHR '')'' # []) =
          replace_go ?old new (CHR ''('' # m) @ CHR '')'' # replace_go ?old new []"
      by (rule replace_go_sep[OF p'])
    ultimately show ?thesis unfolding m by simp
  qed
  show "whole_clause (replace_go ?old new c)"
  proof (cases "c = []")
    case True
    then show ?thesis by (simp add: whole_clause_def)
  next
    case False
    with c obtain m where m: "c = (CHR ''('' # m) @ CHR '')'' # []" by (auto simp: whole_clause_def)
    have "replace_go ?old new ((CHR ''('' # m) @ CHR '')'' # []) =
          replace_go ?old new (CHR ''('' # m) @ CHR '')'' # replace_go ?old new []"
      by (rule replace_go_sep[OF p'])
    moreover have "replace_go ?old new (CHR ''('' # m) = CHR ''('' # replace_go ?old new m"
      by (rule replace_go_other) simp
    ultimately have "replace_go ?old new c = CHR ''('' # replace_go ?old new m @ '')''"
      unfolding m by simp
    then show ?thesis unfolding whole_clause_def by blast
  qed
qed

lemma whole_strip: "whole_clause c \<Longrightarrow> py_strip c = c"
proof (cases "c = []")
  case True
  then show ?thesis by (simp add: py_strip_Nil)
next
  case False
  assume "whole_clause c"
  with False obtain m where "c = CHR ''('' # m @ '')''" by (auto simp: whole_clause_def)
  then show ?thesis by (intro py_strip_id) (simp_all add: py_isspace_def)
qed

lemma scholar_general:
  assumes y: "\<forall>t \<in> set (terms_of wher) \<union> set (terms_of what). \<not> contains ''PUBYEAR'' t"
    and w: "when = None \<or> (\<exists>start_year end_year. when = Some (start_year, end_year) \<and>
                               0 \<le> start_year \<and> 0 \<le> end_year)"
    and d: "py_lower database = ''google_scholar''"
  shows "convert_query_for_database (build_search_query wher what when) database =
           Inr (replace_go '' OR '' '' '' (replace_go '' AND '' '' '' (combined_clause wher what)))"
    and "\<not> contains ''PUBYEAR''
           (replace_go '' OR '' '' '' (replace_go '' AND '' '' '' (combined_clause wher what)))"
proof -
  let ?C = "combined_clause wher what"
  let ?A = "replace_go '' AND '' '' '' ?C"
  let ?F = "replace_go '' OR '' '' '' ?A"
  let ?q = "build_search_query wher what when"
  from y have y1: "\<forall>t \<in> set (terms_of wher). \<not> contains ''PUBYEAR'' t"
    and y2: "\<forall>t \<in> set (terms_of what). \<not> contains ''PUBYEAR'' t" by simp_all
  have C: "\<not> contains ''PUBYEAR'' ?C" by (rule free_combined[OF plain_PUBYEAR y1 y2])
  have A: "\<not> contains ''PUBYEAR'' ?A"
    using C replace_keeps_word[where old = "'' AND ''" and u = "''PUBYEAR''" and s = ?C] by auto
  show F: "\<not> contains ''PUBYEAR'' ?F"
    using A replace_keeps_word[where old = "'' OR ''" and u = "''PUBYEAR''" and s = ?A] by auto
  note wC = whole_combined[of wher what]
  have wA: "whole_clause ?A"
    using replace_whole(2)[OF wC, where v = "''AND ''" and new = "'' ''"] by simp
  have wF: "whole_clause ?F"
    using replace_whole(2)[OF wA, where v = "''OR ''" and new = "'' ''"] by simp
  have sA: "replace_go '' AND '' '' '' (?C @ rest) = ?A @ replace_go '' AND '' '' '' rest" for rest
    using replace_whole(1)[OF wC, where v = "''AND ''" and new = "'' ''" and rest = rest] by simp
  have sF: "replace_go '' OR '' '' '' (?A @ rest) = ?F @ replace_go '' OR '' '' '' rest" for rest
    using replace_whole(1)[OF wA, where v = "''OR ''" and new = "'' ''" and rest = rest] by simp
  have "remove_year_clause (replace_go '' OR '' '' '' (replace_go '' AND '' '' '' ?q)) = ?F"
  proof (cases "when")
    case None
    have q: "?q = ?C @ '' ''" by (simp add: build_search_query_eq when_clause_def None)
    have 1: "replace_go '' AND '' '' '' ?q = ?A @ '' ''" unfolding q sA by simp
    have 2: "replace_go '' OR '' '' '' (?A @ '' '') = ?F @ '' ''" unfolding sF by simp
    from F have "\<not> contains ''PUBYEAR'' (?F @ '' '')" by (simp add: contains_sep_snoc)
    then have "re_sub remove_year_pattern [] (?F @ '' '') = ?F @ '' ''"
      unfolding re_sub_def by (rule re_sub_remove_year_none)
    then have "remove_year_clause (?F @ '' '') = py_strip (?F @ '' '')"
      by (simp add: remove_year_clause_def)
    also have "\<dots> = py_strip ?F" by (rule py_strip_snoc_space) (simp add: py_isspace_def)
    finally show ?thesis unfolding 1 2 by (simp add: whole_strip[OF wF])
  next
    case (Some r)
    with w obtain start_year end_year where
      r: "when = Some (start_year, end_year)" and s: "0 \<le> start_year" and e: "0 \<le> end_year"
      by auto
    let ?S = "py_str_int start_year" and ?E = "py_str_int end_year"
    have dS: "digits ?S" and dE: "digits ?E" using s e by (simp_all add: py_str_int_digits)
    let ?Z = "'' PUBYEAR AFT '' @ ?S @ '' PUBYEAR BEF '' @ ?E"
    have q: "?q = ?C @ ('' PUBYEAR AFT '' @ ?S @ '' AND PUBYEAR BEF '' @ ?E)"
      by (simp add: build_search_query_eq when_clause_def r)
    have 1: "replace_go '' AND '' '' '' ?q = ?A @ ?Z" unfolding q sA year_and[OF dS dE] ..
    have 2: "replace_go '' OR '' '' '' (?A @ ?Z) = ?F @ ?Z" unfolding sF year_or[OF dS dE] ..
    have "remove_year_clause (?F @ ?Z) = py_strip ((?F @ '' '') @ '' '')"
      by (simp only: remove_year_clause_def remove_after_form[OF F dS dE])
    also have "\<dots> = py_strip (?F @ '' '')" by (rule py_strip_snoc_space) (simp add: py_isspace_def)
    also have "\<dots> = py_strip ?F" by (rule py_strip_snoc_space) (simp add: py_isspace_def)
    finally show ?thesis unfolding 1 2 by (simp add: whole_strip[OF wF])
  qed
  then show "convert_query_for_database ?q database = Inr ?F"
    by (simp add: convert_scholar[OF d] whole_strip[OF wF])
qed

lemma scholar_tokens:
  assumes "\<not> contains '' AND AND '' c" "\<not> contains '' OR OR '' c" "\<not> contains '' OR AND OR '' c"
  shows "\<not> contains '' AND '' (replace_go '' OR '' '' '' (replace_go '' AND '' '' '' c))"
    and "\<not> contains '' OR '' (replace_go '' OR '' '' '' (replace_go '' AND '' '' '' c))"
proof -
  show "\<not> contains '' AND '' (replace_go '' OR '' '' '' (replace_go '' AND '' '' '' c))"
    by (rule or_makes_no_and[OF and_leaves_no_and[OF assms(1)]])
  show "\<not> contains '' OR '' (replace_go '' OR '' '' '' (replace_go '' AND '' '' '' c))"
    by (rule or_leaves_no_or[OF and_makes_no_double_or[OF assms(2,3)]])
qed

lemma scholar_plain:
  assumes a: "\<forall>t \<in> set (terms_of wher) \<union> set (terms_of what). \<not> contains ''AND'' t"
    and o: "\<forall>t \<in> set (terms_of wher) \<union> set (terms_of what). \<not> contains ''OR'' t"
  shows "replace_go '' OR '' '' '' (replace_go '' AND '' '' '' (combined_clause wher what)) =
         scholar_form wher what"
proof -
  from a have a1: "\<forall>t \<in> set (terms_of wher). \<not> contains ''AND'' t"
    and a2: "\<forall>t \<in> set (terms_of what). \<not> contains ''AND'' t" by simp_all
  from o have o1: "\<forall>t \<in> set (terms_of wher). \<not> contains ''OR'' t"
    and o2: "\<forall>t \<in> set (terms_of what). \<not> contains ''OR'' t" by simp_all
  from and_to_space[OF a1 a2, of "[]"] or_to_space_both[OF o1 o2, of "[]"]
  show ?thesis by simp
qed

text \<open>
  C7, as amended. The name of the Google Scholar translation is \<open>google_scholar\<close>, in any
  mixture of upper and lower case. For a query \<open>q\<close> built by \<open>build_search_query\<close> from
  terms that do not contain the text \<open>PUBYEAR\<close>, with no range of years or a range of
  non-negative years, the translation is the combined clause of the terms in which
  \<open>replace\<close> has put a single space for \<open>" AND "\<close> and then for \<open>" OR "\<close>, without the year
  clause; it does not contain \<open>PUBYEAR\<close>. It contains neither \<open>" AND "\<close> nor \<open>" OR "\<close> when
  \<open>q\<close> has no two operators in a row with a single space between them, of the forms
  \<open>" AND AND "\<close>, \<open>" OR OR "\<close> and \<open>" OR AND OR "\<close>. When no term contains \<open>AND\<close> or \<open>OR\<close> it
  is the groups of terms, each in parentheses, with single spaces between the terms and
  between the groups.
\<close>

theorem scholar_translation:
  "py_lower database = ''google_scholar'' \<and>
   (\<forall>t \<in> set (terms_of wher) \<union> set (terms_of what). \<not> contains ''PUBYEAR'' t) \<and>
   (when = None \<or> (\<exists>start_year end_year. when = Some (start_year, end_year) \<and>
                       0 \<le> start_year \<and> 0 \<le> end_year)) \<longrightarrow>
   (let q = build_search_query wher what when;
        r = py_replace '' OR '' '' '' (py_replace '' AND '' '' '' (combined_clause wher what)) in
      convert_query_for_database q database = Inr r \<and>
      \<not> contains ''PUBYEAR'' r \<and>
      (\<not> contains '' AND AND '' q \<and> \<not> contains '' OR OR '' q \<and> \<not> contains '' OR AND OR '' q \<longrightarrow>
         \<not> contains '' AND '' r \<and> \<not> contains '' OR '' r) \<and>
      ((\<forall>t \<in> set (terms_of wher) \<union> set (terms_of what).
           \<not> contains ''AND'' t \<and> \<not> contains ''OR'' t) \<longrightarrow>
         r = scholar_form wher what))"
proof (intro impI)
  assume h: "py_lower database = ''google_scholar'' \<and>
   (\<forall>t \<in> set (terms_of wher) \<union> set (terms_of what). \<not> contains ''PUBYEAR'' t) \<and>
   (when = None \<or> (\<exists>start_year end_year. when = Some (start_year, end_year) \<and>
                       0 \<le> start_year \<and> 0 \<le> end_year))"
  then have d: "py_lower database = ''google_scholar''"
    and y: "\<forall>t \<in> set (terms_of wher) \<union> set (terms_of what). \<not> contains ''PUBYEAR'' t"
    and w: "when = None \<or> (\<exists>start_year end_year. when = Some (start_year, end_year) \<and>
                               0 \<le> start_year \<and> 0 \<le> end_year)"
    by blast+
  let ?C = "combined_clause wher what"
  let ?q = "build_search_query wher what when"
  let ?r = "py_replace '' OR '' '' '' (py_replace '' AND '' '' '' ?C)"
  have r: "?r = replace_go '' OR '' '' '' (replace_go '' AND '' '' '' ?C)"
    by (simp add: py_replace_def)
  have 1: "convert_query_for_database ?q database = Inr ?r"
    unfolding r by (rule scholar_general(1)[OF y w d])
  have 2: "\<not> contains ''PUBYEAR'' ?r"
    unfolding r by (rule scholar_general(2)[OF y w d])
  have 3: "\<not> contains '' AND AND '' ?q \<and> \<not> contains '' OR OR '' ?q \<and>
           \<not> contains '' OR AND OR '' ?q \<longrightarrow> \<not> contains '' AND '' ?r \<and> \<not> contains '' OR '' ?r"
  proof
    assume t: "\<not> contains '' AND AND '' ?q \<and> \<not> contains '' OR OR '' ?q \<and>
               \<not> contains '' OR AND OR '' ?q"
    have q: "?q = ?C @ ('' '' @ when_clause when)" by (simp add: build_search_query_eq)
    from t have c: "\<not> contains '' AND AND '' ?C" "\<not> contains '' OR OR '' ?C"
      "\<not> contains '' OR AND OR '' ?C"
      unfolding q using not_contains_append by blast+
    from scholar_tokens[OF c] show "\<not> contains '' AND '' ?r \<and> \<not> contains '' OR '' ?r"
      unfolding r by (intro conjI)
  qed
  have 4: "(\<forall>t \<in> set (terms_of wher) \<union> set (terms_of what).
              \<not> contains ''AND'' t \<and> \<not> contains ''OR'' t) \<longrightarrow> ?r = scholar_form wher what"
  proof
    assume "\<forall>t \<in> set (terms_of wher) \<union> set (terms_of what).
              \<not> contains ''AND'' t \<and> \<not> contains ''OR'' t"
    then have "\<forall>t \<in> set (terms_of wher) \<union> set (terms_of what). \<not> contains ''AND'' t"
      "\<forall>t \<in> set (terms_of wher) \<union> set (terms_of what). \<not> contains ''OR'' t" by blast+
    from scholar_plain[OF this] show "?r = scholar_form wher what" unfolding r .
  qed
  from 1 2 3 4 show "let q = build_search_query wher what when;
        r = py_replace '' OR '' '' '' (py_replace '' AND '' '' '' (combined_clause wher what)) in
      convert_query_for_database q database = Inr r \<and>
      \<not> contains ''PUBYEAR'' r \<and>
      (\<not> contains '' AND AND '' q \<and> \<not> contains '' OR OR '' q \<and> \<not> contains '' OR AND OR '' q \<longrightarrow>
         \<not> contains '' AND '' r \<and> \<not> contains '' OR '' r) \<and>
      ((\<forall>t \<in> set (terms_of wher) \<union> set (terms_of what).
           \<not> contains ''AND'' t \<and> \<not> contains ''OR'' t) \<longrightarrow>
         r = scholar_form wher what)"
    unfolding Let_def by (intro conjI)
qed

lemma norway:
  "build_search_query (Some [''NORWAY'', ''ANDES*'']) (Some [''black AND white'', ''FLORIDA''])
     (Some (2018, 2022)) =
   ''('' @ [dquote] @ ''NORWAY'' @ [dquote] @ '' OR ANDES*) AND ('' @ [dquote] @
   ''black AND white'' @ [dquote] @ '' OR '' @ [dquote] @ ''FLORIDA'' @ [dquote] @
   '') PUBYEAR AFT 2018 AND PUBYEAR BEF 2022''"
  "py_replace '' OR '' '' '' (py_replace '' AND '' '' ''
     (combined_clause (Some [''NORWAY'', ''ANDES*'']) (Some [''black AND white'', ''FLORIDA'']))) =
   ''('' @ [dquote] @ ''NORWAY'' @ [dquote] @ '' ANDES*) ('' @ [dquote] @
   ''black white'' @ [dquote] @ '' '' @ [dquote] @ ''FLORIDA'' @ [dquote] @ '')''"
  "\<not> contains '' AND AND '' (build_search_query (Some [''NORWAY'', ''ANDES*''])
     (Some [''black AND white'', ''FLORIDA'']) (Some (2018, 2022)))"
  "\<not> contains '' OR OR '' (build_search_query (Some [''NORWAY'', ''ANDES*''])
     (Some [''black AND white'', ''FLORIDA'']) (Some (2018, 2022)))"
  "\<not> contains '' OR AND OR '' (build_search_query (Some [''NORWAY'', ''ANDES*''])
     (Some [''black AND white'', ''FLORIDA'']) (Some (2018, 2022)))"
  by code_simp+

theorem scholar_translation_witness:
  "py_lower ''Google_Scholar'' = ''google_scholar'' \<and>
   \<not> contains ''PUBYEAR'' ''NORWAY'' \<and> \<not> contains ''PUBYEAR'' ''ANDES*'' \<and>
   \<not> contains ''PUBYEAR'' ''black AND white'' \<and> \<not> contains ''PUBYEAR'' ''FLORIDA'' \<and>
   (0::int) \<le> 2018 \<and> (0::int) \<le> 2022 \<and>
   \<not> contains '' AND AND '' (build_search_query (Some [''NORWAY'', ''ANDES*''])
     (Some [''black AND white'', ''FLORIDA'']) (Some (2018, 2022))) \<and>
   \<not> contains '' OR OR '' (build_search_query (Some [''NORWAY'', ''ANDES*''])
     (Some [''black AND white'', ''FLORIDA'']) (Some (2018, 2022))) \<and>
   \<not> contains '' OR AND OR '' (build_search_query (Some [''NORWAY'', ''ANDES*''])
     (Some [''black AND white'', ''FLORIDA'']) (Some (2018, 2022))) \<and>
   convert_query_for_database
     (build_search_query (Some [''NORWAY'', ''ANDES*'']) (Some [''black AND white'', ''FLORIDA''])
        (Some (2018, 2022))) ''Google_Scholar'' =
     Inr (''('' @ [dquote] @ ''NORWAY'' @ [dquote] @ '' ANDES*) ('' @ [dquote] @
          ''black white'' @ [dquote] @ '' '' @ [dquote] @ ''FLORIDA'' @ [dquote] @ '')'') \<and>
   \<not> contains '' AND '' (''('' @ [dquote] @ ''NORWAY'' @ [dquote] @ '' ANDES*) ('' @ [dquote] @
          ''black white'' @ [dquote] @ '' '' @ [dquote] @ ''FLORIDA'' @ [dquote] @ '')'') \<and>
   \<not> contains ''AND'' ''cats*'' \<and> \<not> contains ''OR'' ''cats*'' \<and> \<not> contains ''PUBYEAR'' ''cats*'' \<and>
   \<not> contains ''AND'' ''urban heat*'' \<and> \<not> contains ''OR'' ''urban heat*'' \<and>
   \<not> contains ''PUBYEAR'' ''urban heat*'' \<and>
   convert_query_for_database (build_search_query (Some [''cats*'']) (Some [''urban heat*'']) None)
     ''google_scholar'' = Inr ''(cats*) (urban heat*)''"
proof -
  let ?W = "Some [''NORWAY'', ''ANDES*'']" and ?T = "Some [''black AND white'', ''FLORIDA'']"
  have d: "py_lower ''Google_Scholar'' = ''google_scholar''"
    "py_lower ''google_scholar'' = ''google_scholar''"
    by (simp_all add: py_lower_def lower_char_def)
  have n: "\<not> contains ''PUBYEAR'' ''NORWAY''" "\<not> contains ''PUBYEAR'' ''ANDES*''"
    "\<not> contains ''PUBYEAR'' ''black AND white''" "\<not> contains ''PUBYEAR'' ''FLORIDA''"
    by (simp_all add: contains.simps)
  have c: "\<not> contains ''AND'' ''cats*''" "\<not> contains ''OR'' ''cats*''"
    "\<not> contains ''PUBYEAR'' ''cats*''" "\<not> contains ''AND'' ''urban heat*''"
    "\<not> contains ''OR'' ''urban heat*''" "\<not> contains ''PUBYEAR'' ''urban heat*''"
    by (simp_all add: contains.simps)
  have h1: "py_lower ''Google_Scholar'' = ''google_scholar'' \<and>
   (\<forall>t \<in> set (terms_of ?W) \<union> set (terms_of ?T). \<not> contains ''PUBYEAR'' t) \<and>
   (Some (2018, 2022) = (None :: (int \<times> int) option) \<or>
    (\<exists>start_year end_year. Some (2018, 2022) = Some (start_year, end_year) \<and>
         (0::int) \<le> start_year \<and> (0::int) \<le> end_year))"
    using d n by (simp add: terms_of_def)
  note a = scholar_translation[of "''Google_Scholar''" ?W ?T "Some (2018, 2022)", THEN mp, OF h1,
             unfolded Let_def norway(2)]
  from a have 1: "convert_query_for_database (build_search_query ?W ?T (Some (2018, 2022)))
      ''Google_Scholar'' =
     Inr (''('' @ [dquote] @ ''NORWAY'' @ [dquote] @ '' ANDES*) ('' @ [dquote] @
          ''black white'' @ [dquote] @ '' '' @ [dquote] @ ''FLORIDA'' @ [dquote] @ '')'')"
    by blast
  from a norway(3,4,5)
  have 2: "\<not> contains '' AND '' (''('' @ [dquote] @ ''NORWAY'' @ [dquote] @ '' ANDES*) ('' @ [dquote] @
          ''black white'' @ [dquote] @ '' '' @ [dquote] @ ''FLORIDA'' @ [dquote] @ '')'')"
    by blast
  have h2: "py_lower ''google_scholar'' = ''google_scholar'' \<and>
   (\<forall>t \<in> set (terms_of (Some [''cats*''])) \<union> set (terms_of (Some [''urban heat*''])).
       \<not> contains ''PUBYEAR'' t) \<and>
   ((None :: (int \<times> int) option) = None \<or>
    (\<exists>start_year end_year. (None :: (int \<times> int) option) = Some (start_year, end_year) \<and>
         (0::int) \<le> start_year \<and> (0::int) \<le> end_year))"
    using d c by (simp add: terms_of_def)
  have p: "\<forall>t \<in> set (terms_of (Some [''cats*''])) \<union> set (terms_of (Some [''urban heat*''])).
       \<not> contains ''AND'' t \<and> \<not> contains ''OR'' t"
    using c by (simp add: terms_of_def)
  have f: "scholar_form (Some [''cats*'']) (Some [''urban heat*'']) = ''(cats*) (urban heat*)''"
    by (simp add: scholar_form_def scholar_clause_def format_terms_def add_quotes_def)
  note b = scholar_translation[of "''google_scholar''" "Some [''cats*'']" "Some [''urban heat*'']" None,
             THEN mp, OF h2, unfolded Let_def]
  from b p f have 3: "convert_query_for_database
      (build_search_query (Some [''cats*'']) (Some [''urban heat*'']) None) ''google_scholar'' =
      Inr ''(cats*) (urban heat*)''"
    by simp
  from d(1) n norway(3,4,5) 1 2 c 3 show ?thesis by (intro conjI) simp_all
qed

theorem scholar_translation_counterexample:
  "convert_query_for_database (build_search_query (Some [''cats*'']) None (Some (-5, 2020)))
     ''google_scholar'' = Inr ''(cats*) PUBYEAR AFT -5'' \<and>
   contains ''PUBYEAR'' ''(cats*) PUBYEAR AFT -5'' \<and>
   convert_query_for_database (build_search_query (Some [''PUBYEAR*'']) None None)
     ''google_scholar'' = Inr ''(PUBYEAR*)'' \<and>
   contains ''PUBYEAR'' ''(PUBYEAR*)'' \<and>
   convert_query_for_database (build_search_query (Some [''x AND AND y*'']) None None)
     ''google_scholar'' = Inr ''(x AND y*)'' \<and>
   contains '' AND '' ''(x AND y*)'' \<and>
   convert_query_for_database (build_search_query (Some [''x OR OR y*'']) None None)
     ''google_scholar'' = Inr ''(x OR y*)'' \<and>
   convert_query_for_database (build_search_query (Some [''x OR AND OR y*'']) None None)
     ''google_scholar'' = Inr ''(x OR y*)'' \<and>
   contains '' OR '' ''(x OR y*)''"
  by code_simp

section \<open>\<open>query_wos\<close>: retries and outcomes\<close>

declare query_wos_from.simps [simp del]

lemma query_wos_from_throttled:
  "attempt < retries \<Longrightarrow> throttled (get attempt) \<Longrightarrow>
     query_wos_from get retries delay attempt sleeps =
       query_wos_from get retries delay (attempt + 1) (sleeps @ [delay * (real attempt + 1)])"
  by (subst query_wos_from.simps) (auto simp: throttled_def split: http_result.splits)

lemma query_wos_from_final:
  "attempt < retries \<Longrightarrow> \<not> throttled (get attempt) \<Longrightarrow>
     query_wos_from get retries delay attempt sleeps = (attempt_outcome (get attempt), sleeps)"
  by (subst query_wos_from.simps)
     (auto simp: throttled_def attempt_outcome_def split: http_result.splits body.splits)

lemma query_wos_from_exhausted:
  "\<not> attempt < retries \<Longrightarrow> query_wos_from get retries delay attempt sleeps = (Inr None, sleeps)"
  by (subst query_wos_from.simps) simp

lemma query_wos_from_run:
  assumes "\<forall>i. attempt \<le> i \<and> i < k \<longrightarrow> throttled (get i)" "attempt \<le> k" "k \<le> retries"
  shows "query_wos_from get retries delay attempt sleeps =
           query_wos_from get retries delay k
             (sleeps @ map (\<lambda>i. delay * (real i + 1)) [attempt..<k])"
  using assms
proof (induction "k - attempt" arbitrary: attempt sleeps)
  case 0
  then show ?case by simp
next
  case (Suc n)
  then have lt: "attempt < k" by simp
  with Suc.prems have t: "throttled (get attempt)" "attempt < retries" by auto
  have "query_wos_from get retries delay (attempt + 1) (sleeps @ [delay * (real attempt + 1)]) =
          query_wos_from get retries delay k
            ((sleeps @ [delay * (real attempt + 1)]) @ map (\<lambda>i. delay * (real i + 1)) [attempt + 1..<k])"
    using Suc.hyps Suc.prems lt by (intro Suc.hyps(1)) auto
  then show ?case
    using lt query_wos_from_throttled[of attempt retries get delay sleeps, OF t(2) t(1)]
    by (simp add: upt_conv_Cons)
qed

lemma query_wos_429_only:
  "(\<forall>i < k. throttled (get i)) \<and> int k < retries \<and> \<not> throttled (get k) \<longrightarrow>
     query_wos get retries delay =
       (attempt_outcome (get k), map (\<lambda>i. delay * (real i + 1)) [0..<k])"
proof
  assume a: "(\<forall>i < k. throttled (get i)) \<and> int k < retries \<and> \<not> throttled (get k)"
  then have k: "k < nat retries" by linarith
  from a have "query_wos_from get (nat retries) delay 0 [] =
      query_wos_from get (nat retries) delay k ([] @ map (\<lambda>i. delay * (real i + 1)) [0..<k])"
    using k by (intro query_wos_from_run) auto
  with a k show "query_wos get retries delay =
       (attempt_outcome (get k), map (\<lambda>i. delay * (real i + 1)) [0..<k])"
    by (simp add: query_wos_def query_wos_from_final)
qed

lemma query_wos_all_throttled:
  "(\<forall>i. int i < retries \<longrightarrow> throttled (get i)) \<longrightarrow>
     query_wos get retries delay = (Inr None, map (\<lambda>i. delay * (real i + 1)) [0..<nat retries])"
proof
  assume a: "\<forall>i. int i < retries \<longrightarrow> throttled (get i)"
  then have "query_wos_from get (nat retries) delay 0 [] =
      query_wos_from get (nat retries) delay (nat retries)
        ([] @ map (\<lambda>i. delay * (real i + 1)) [0..<nat retries])"
    by (intro query_wos_from_run) auto
  then show "query_wos get retries delay =
      (Inr None, map (\<lambda>i. delay * (real i + 1)) [0..<nat retries])"
    by (simp add: query_wos_def query_wos_from_exhausted)
qed

text \<open>
  C3 (what the code does). By the two lemmas above only
  a 429 response is retried, after a sleep of \<open>delay * (attempt + 1)\<close>, and every other
  outcome of an attempt ends the call at once. But a 200 response does not always end in
  \<open>None\<close>: where the body has a value that is not a dictionary at a place that the code
  does not check (\<open>Data\<close>, \<open>Records\<close>, a record, ...), \<open>.get\<close> raises \<open>AttributeError\<close>,
  which \<open>query_wos\<close> does not catch.
\<close>

theorem query_wos_unexpected_shape_raises:
  "attempt_outcome (Response 200 (JsonBody (JDict [(''Data'', JNull)]))) = Inl AttributeError \<and>
   query_wos (\<lambda>n. Response 200 (JsonBody (JDict [(''Data'', JNull)]))) 3 1 =
     (Inl AttributeError, []) \<and>
   query_wos (\<lambda>n. Response 200 (JsonBody (JDict [(''Data'', JDict [(''Records'', JDict
        [(''records'', JDict [(''REC'', JList [JStr ''x''])])])])]))) 3 1 =
     (Inl AttributeError, [])"
proof -
  have 1: "attempt_outcome (Response 200 (JsonBody (JDict [(''Data'', JNull)]))) = Inl AttributeError"
    by (simp add: attempt_outcome_def parse_body_def is_dict_def get2_def py_get_def bnd_def)
  have 2: "attempt_outcome (Response 200 (JsonBody (JDict [(''Data'', JDict [(''Records'', JDict
        [(''records'', JDict [(''REC'', JList [JStr ''x''])])])])]))) = Inl AttributeError"
    by (simp add: attempt_outcome_def parse_body_def is_dict_def get2_def py_get_def bnd_def
                  extract_record_def)
  have t: "\<not> throttled (Response 200 b)" for b by (simp add: throttled_def)
  show ?thesis
    using query_wos_429_only[where k = 0 and retries = 3 and delay = 1
            and get = "\<lambda>n. Response 200 (JsonBody (JDict [(''Data'', JNull)]))"]
          query_wos_429_only[where k = 0 and retries = 3 and delay = 1
            and get = "\<lambda>n. Response 200 (JsonBody (JDict [(''Data'', JDict [(''Records'', JDict
        [(''records'', JDict [(''REC'', JList [JStr ''x''])])])])]))"]
    by (simp add: 1 2 t)
qed


section \<open>Pagination: the rounds of the loop\<close>

declare paginate_loop.simps [simp del]

lemma loop_body_round:
  assumes ok: "case fetch (calls st) (first_record st) of
           Inl e \<Rightarrow>
             int (Suc (attempts st)) < retries \<longrightarrow>
               Suc (attempts st) < 1024 \<and> nap (delay * 2 ^ Suc (attempts st)) = None
         | Inr None \<Rightarrow> True
         | Inr (Some df) \<Rightarrow>
             100 \<le> length df \<longrightarrow>
               nap delay = None \<or>
               (retries \<le> int (Suc (attempts st)) \<and> mx < first_record st + 100)"
    and inv: "position fetch (calls st) = (first_record st, attempts st)"
    and u: "uncaught st = None"
    and le: "first_record st \<le> mx"
    and b: "loop_body fetch nap delay retries st = (st2, go)"
  shows "calls st2 = Suc (calls st) \<and> uncaught st2 = None \<and>
         trace st2 = trace st @ round_events fetch delay retries (calls st) \<and>
         all_dfs st2 = all_dfs st @ filter (\<lambda>df. df \<noteq> []) [rows_at fetch (calls st)] \<and>
         (go \<longrightarrow> position fetch (Suc (calls st)) = (first_record st2, attempts st2)) \<and>
         (go \<and> first_record st2 \<le> mx \<longleftrightarrow> goes_on_after fetch mx retries (calls st))"
proof -
  have r: "record_at fetch (calls st) = first_record st" "failures_before fetch (calls st) = attempts st"
    using inv by (simp_all add: record_at_def failures_before_def)
  show ?thesis
  proof (cases "fetch (calls st) (first_record st)")
    case (Inl e)
    show ?thesis
    proof (cases "int (Suc (attempts st)) < retries")
      case True
      with ok Inl have ok': "Suc (attempts st) < 1024" "nap (delay * 2 ^ Suc (attempts st)) = None"
        by simp_all
      from b show ?thesis
        using Inl True ok' u inv r le
        by (auto simp: loop_body_def handler_def sleep_time_def Let_def round_events_def
                       outcome_at_def rows_at_def goes_on_after_def)
    next
      case False
      from b show ?thesis
        using Inl False u inv r
        by (auto simp: loop_body_def handler_def sleep_time_def Let_def round_events_def
                       outcome_at_def rows_at_def goes_on_after_def)
    qed
  next
    case (Inr p)
    show ?thesis
    proof (cases p)
      case None
      from b show ?thesis
        using Inr None u inv r
        by (auto simp: loop_body_def Let_def round_events_def outcome_at_def rows_at_def
                       goes_on_after_def)
    next
      case (Some df)
      show ?thesis
      proof (cases "100 \<le> length df")
        case True
        from True have ne: "df \<noteq> []" by auto
        from ok Inr Some True
        have "nap delay = None \<or> (retries \<le> int (Suc (attempts st)) \<and> mx < first_record st + 100)"
          by simp
        then show ?thesis
        proof
          assume ok': "nap delay = None"
          from b show ?thesis
            using Inr Some True ok' ne u inv r
            by (auto simp: loop_body_def Let_def round_events_def outcome_at_def rows_at_def
                           goes_on_after_def page_size_def)
        next
          assume c: "retries \<le> int (Suc (attempts st)) \<and> mx < first_record st + 100"
          show ?thesis
          proof (cases "nap delay")
            case None
            from b show ?thesis
              using Inr Some True None ne u inv r
              by (auto simp: loop_body_def Let_def round_events_def outcome_at_def rows_at_def
                             goes_on_after_def page_size_def)
          next
            case (Some e)
            from b show ?thesis
              using Inr \<open>p = Some df\<close> True Some c ne u inv r
              by (auto simp: loop_body_def handler_def Let_def round_events_def outcome_at_def
                             rows_at_def goes_on_after_def page_size_def)
          qed
        qed
      next
        case False
        from b show ?thesis
          using Inr Some False u inv r
          by (auto simp: loop_body_def Let_def round_events_def outcome_at_def rows_at_def
                         goes_on_after_def page_size_def)
      qed
    qed
  qed
qed

lemma rounds_post_stop:
  assumes c2: "calls st2 = Suc (calls st)" and u2: "uncaught st2 = None"
    and t2: "trace st2 = trace st @ round_events fetch delay retries (calls st)"
    and d2: "all_dfs st2 = all_dfs st @ filter (\<lambda>df. df \<noteq> []) [rows_at fetch (calls st)]"
    and le: "first_record st \<le> mx" and r: "record_at fetch (calls st) = first_record st"
    and g: "\<not> goes_on_after fetch mx retries (calls st)"
  shows "rounds_post fetch delay mx retries st st2"
  unfolding rounds_post_def using assms by (auto simp: less_Suc_eq)

lemma rounds_post_step:
  assumes c2: "calls st2 = Suc (calls st)"
    and t2: "trace st2 = trace st @ round_events fetch delay retries (calls st)"
    and d2: "all_dfs st2 = all_dfs st @ filter (\<lambda>df. df \<noteq> []) [rows_at fetch (calls st)]"
    and le: "first_record st \<le> mx" and r: "record_at fetch (calls st) = first_record st"
    and g: "first_record st2 \<le> mx \<longleftrightarrow> goes_on_after fetch mx retries (calls st)"
    and post: "rounds_post fetch delay mx retries st2 st'"
  shows "rounds_post fetch delay mx retries st st'"
proof -
  let ?k = "calls st"
  have p1: "Suc ?k \<le> calls st'" using post c2 by (simp add: rounds_post_def)
  then have upt: "[?k..<calls st'] = ?k # [Suc ?k..<calls st']" by (simp add: upt_conv_Cons)
  have u: "uncaught st' = None" using post by (simp add: rounds_post_def)
  have t: "trace st' = trace st @ concat (map (round_events fetch delay retries) [?k..<calls st'])"
    using post c2 t2 unfolding upt by (simp add: rounds_post_def)
  have d: "all_dfs st' = all_dfs st @ filter (\<lambda>df. df \<noteq> []) (map (rows_at fetch) [?k..<calls st'])"
    using post c2 d2 unfolding upt by (simp add: rounds_post_def)
  have e2: "(calls st' = Suc ?k) = (mx < first_record st2)"
    using post c2 by (simp add: rounds_post_def)
  have k: "record_at fetch k \<le> mx \<and> (Suc k < calls st' \<longleftrightarrow> goes_on_after fetch mx retries k)"
    if "?k \<le> k" "k < calls st'" for k
  proof (cases "k = ?k")
    case True
    then show ?thesis using le r e2 p1 g by auto
  next
    case False
    with that have "calls st2 \<le> k \<and> k < calls st'" using c2 by simp
    then show ?thesis using post by (simp add: rounds_post_def)
  qed
  have e: "(calls st' = ?k) = (mx < first_record st)" using p1 le by auto
  show ?thesis unfolding rounds_post_def using p1 u t d k e by simp
qed

lemma loop_rounds:
  "sleeps_return fetch nap delay mx retries \<Longrightarrow>
   position fetch (calls st) = (first_record st, attempts st) \<Longrightarrow> uncaught st = None \<Longrightarrow>
   (first_record st \<le> mx \<longrightarrow> reached fetch mx retries (calls st)) \<Longrightarrow>
   rounds_post fetch delay mx retries st (paginate_loop fetch nap delay mx retries st)"
proof (induction fetch nap delay mx retries st rule: paginate_loop.induct)
  case (1 fetch nap delay mx retries st)
  note sr = 1(2) and inv = 1(3) and u = 1(4) and re = 1(5)
  show ?case
  proof (cases "first_record st \<le> mx")
    case False
    then show ?thesis using u by (subst paginate_loop.simps) (auto simp: rounds_post_def)
  next
    case True
    obtain st2 go where b: "loop_body fetch nap delay retries st = (st2, go)" by force
    have r: "record_at fetch (calls st) = first_record st"
      "failures_before fetch (calls st) = attempts st"
      using inv by (simp_all add: record_at_def failures_before_def)
    from re True have rk: "reached fetch mx retries (calls st)" by simp
    with sr have "case outcome_at fetch (calls st) of
           Inl e \<Rightarrow>
             int (Suc (failures_before fetch (calls st))) < retries \<longrightarrow>
               Suc (failures_before fetch (calls st)) < 1024 \<and>
               nap (delay * 2 ^ Suc (failures_before fetch (calls st))) = None
         | Inr None \<Rightarrow> True
         | Inr (Some df) \<Rightarrow>
             100 \<le> length df \<longrightarrow>
               nap delay = None \<or>
               (retries \<le> int (Suc (failures_before fetch (calls st))) \<and>
                mx < record_at fetch (calls st) + 100)"
      unfolding sleeps_return_def by blast
    then have ok: "case fetch (calls st) (first_record st) of
           Inl e \<Rightarrow>
             int (Suc (attempts st)) < retries \<longrightarrow>
               Suc (attempts st) < 1024 \<and> nap (delay * 2 ^ Suc (attempts st)) = None
         | Inr None \<Rightarrow> True
         | Inr (Some df) \<Rightarrow>
             100 \<le> length df \<longrightarrow>
               nap delay = None \<or>
               (retries \<le> int (Suc (attempts st)) \<and> mx < first_record st + 100)"
      unfolding outcome_at_def r .
    note s = loop_body_round[OF ok inv u True b]
    show ?thesis
    proof (cases go)
      case False
      have unf: "paginate_loop fetch nap delay mx retries st = st2"
        using True b False by (subst paginate_loop.simps) simp
      show ?thesis unfolding unf
        using s False by (intro rounds_post_stop[OF _ _ _ _ True r(1)]) simp_all
    next
      case go: True
      have unf: "paginate_loop fetch nap delay mx retries st = paginate_loop fetch nap delay mx retries st2"
        using True b go by (subst paginate_loop.simps) simp
      have inv2: "position fetch (calls st2) = (first_record st2, attempts st2)"
        using s go by simp
      have re2: "first_record st2 \<le> mx \<longrightarrow> reached fetch mx retries (calls st2)"
      proof
        assume "first_record st2 \<le> mx"
        with s go have g: "goes_on_after fetch mx retries (calls st)" by simp
        from s have c2: "calls st2 = Suc (calls st)" by simp
        show "reached fetch mx retries (calls st2)"
          unfolding c2 reached_def using rk g by (auto simp: reached_def less_Suc_eq)
      qed
      have IH: "rounds_post fetch delay mx retries st2 (paginate_loop fetch nap delay mx retries st2)"
        using 1(1)[OF True b[symmetric] refl go sr inv2 _ re2] s by simp
      show ?thesis unfolding unf
        using s go by (intro rounds_post_step[OF _ _ _ True r(1) _ IH]) simp_all
    qed
  qed
qed

lemma run_rounds:
  assumes "sleeps_return fetch nap delay mx retries"
  shows "rounds_post fetch delay mx retries initial (run_paginated fetch nap delay mx retries)"
  unfolding run_paginated_def
  by (rule loop_rounds[OF assms]) (simp_all add: initial_def reached_def)

lemma position_full_pages:
  assumes nr: "\<forall>k fr e. fetch k fr \<noteq> Inl e"
  shows "\<forall>j<k. goes_on_after fetch mx retries j \<Longrightarrow> position fetch k = (1 + 100 * int k, 0)"
proof (induction k)
  case 0
  show ?case by simp
next
  case (Suc k)
  then have p: "position fetch k = (1 + 100 * int k, 0)" by simp
  from Suc.prems have g: "goes_on_after fetch mx retries k" by simp
  then obtain df where "fetch k (1 + 100 * int k) = Inr (Some df)" "100 \<le> length df"
    using nr p
    by (auto simp: goes_on_after_def outcome_at_def record_at_def split: sum.splits option.splits)
  then show ?case using p by simp
qed

lemma run_full_pages:
  assumes nr: "\<forall>k fr e. fetch k fr \<noteq> Inl e"
    and post: "rounds_post fetch delay mx retries initial st" and k: "k < calls st"
  shows "position fetch k = (1 + 100 * int k, 0)"
proof (rule position_full_pages[OF nr, of k mx retries], intro allI impI)
  fix j assume "j < k"
  with k have j: "j < calls st" "Suc j < calls st" by simp_all
  from post have "\<forall>k. k < calls st \<longrightarrow> record_at fetch k \<le> mx \<and>
                    (Suc k < calls st \<longleftrightarrow> goes_on_after fetch mx retries k)"
    by (simp add: rounds_post_def initial_def)
  with j show "goes_on_after fetch mx retries j" by blast
qed

lemma sleeps_return_pages:
  assumes nr: "\<forall>k fr e. fetch k fr \<noteq> Inl e"
    and hp: "1 \<le> mx \<and> (\<exists>df. fetch 0 1 = Inr (Some df) \<and> 100 \<le> length df) \<longrightarrow>
       nap delay = None \<or> (retries \<le> 1 \<and> mx < 101)"
  shows "sleeps_return fetch nap delay mx retries"
  unfolding sleeps_return_def
proof (intro allI impI)
  fix k assume r: "reached fetch mx retries k"
  then have mx: "1 \<le> mx" by (simp add: reached_def)
  have p0: "outcome_at fetch 0 = fetch 0 1" "record_at fetch 0 = 1" "failures_before fetch 0 = 0"
    by (simp_all add: outcome_at_def record_at_def failures_before_def)
  have full: "nap delay = None \<or>
              (retries \<le> int (Suc (failures_before fetch k)) \<and> mx < record_at fetch k + 100)"
    if o: "outcome_at fetch k = Inr (Some df)" and l: "100 \<le> length df" for df
  proof (cases k)
    case 0
    with o l p0 mx hp show ?thesis by auto
  next
    case (Suc j)
    with r have "goes_on_after fetch mx retries 0" by (simp add: reached_def)
    then obtain df0 where "fetch 0 1 = Inr (Some df0)" "100 \<le> length df0" "101 \<le> mx"
      using nr p0 by (auto simp: goes_on_after_def split: sum.splits option.splits)
    with hp mx show ?thesis by auto
  qed
  show "case outcome_at fetch k of
           Inl e \<Rightarrow>
             int (Suc (failures_before fetch k)) < retries \<longrightarrow>
               Suc (failures_before fetch k) < 1024 \<and>
               nap (delay * 2 ^ Suc (failures_before fetch k)) = None
         | Inr None \<Rightarrow> True
         | Inr (Some df) \<Rightarrow>
             100 \<le> length df \<longrightarrow>
               nap delay = None \<or>
               (retries \<le> int (Suc (failures_before fetch k)) \<and> mx < record_at fetch k + 100)"
    using nr full by (auto simp: outcome_at_def split: sum.splits option.splits)
qed

lemma three_pages:
  assumes f: "fetch 0 1 = Inr (Some p0)" "fetch 1 101 = Inr (Some p1)" "fetch 2 201 = Inr (Some p2)"
    and l: "length p0 = 100" "length p1 = 100" "length p2 = 37"
    and mx: "201 \<le> mx" and nap: "nap delay = None"
  shows "run_paginated fetch nap delay mx retries =
     \<lparr>all_dfs = [p0, p1, p2], first_record = 201, attempts = 0, calls = 3,
      trace = [Query 1 (Inr (Some p0)), Sleep delay, Query 101 (Inr (Some p1)), Sleep delay,
               Query 201 (Inr (Some p2))], uncaught = None\<rparr>"
proof -
  have ne: "p0 \<noteq> []" "p1 \<noteq> []" "p2 \<noteq> []" using l by auto
  have f': "fetch (Suc 0) 101 = Inr (Some p1)" "fetch (Suc (Suc 0)) 201 = Inr (Some p2)"
    using f by (simp_all add: numeral_2_eq_2)
  have mx': "1 \<le> mx" "101 \<le> mx" using mx by simp_all
  show ?thesis
    unfolding run_paginated_def initial_def
    apply (subst paginate_loop.simps)
    apply (simp add: loop_body_def f l ne mx mx' nap page_size_def Let_def)
    apply (subst paginate_loop.simps)
    apply (simp add: loop_body_def f' l ne mx mx' nap page_size_def Let_def)
    apply (subst paginate_loop.simps)
    apply (simp add: loop_body_def f' l ne mx mx' nap page_size_def Let_def numeral_3_eq_3)
    done
qed

lemma concat_nonempty: "concat (filter (\<lambda>df. df \<noteq> []) xs) = concat xs"
  by (induction xs) auto

lemma filter_nonempty_Nil: "filter (\<lambda>df. df \<noteq> []) xs = [] \<longleftrightarrow> concat xs = []"
  by (induction xs) auto

lemma result_of_rounds:
  assumes "rounds_post fetch delay mx retries initial (run_paginated fetch nap delay mx retries)"
  shows "execute_query_paginated fetch nap delay mx retries =
         Inr (if concat (map (rows_at fetch) [0..<calls (run_paginated fetch nap delay mx retries)]) = []
              then None
              else Some (concat (map (rows_at fetch)
                           [0..<calls (run_paginated fetch nap delay mx retries)])))"
  using assms
  by (simp add: execute_query_paginated_def rounds_post_def initial_def concat_result_def
                concat_nonempty filter_nonempty_Nil Let_def)

text \<open>
  C1, as amended. When no call of \<open>query_wos\<close> raises and \<open>time.sleep\<close> returns for \<open>delay\<close>
  (needed when the first page has at least 100 rows, unless the loop would end after this
  page and \<open>retries\<close> is at most 1, so that the handler ends it too): the \<open>k\<close>-th call asks
  for the page that starts at record \<open>1 + 100 * k\<close>, and is followed by a sleep of \<open>delay\<close>
  when it returns at least 100 rows; the result is the concatenation, in the order of the
  calls, of the frames returned, and \<open>None\<close> when there is no row; the call number \<open>k\<close> is
  the last one exactly when it returned \<open>None\<close>, an empty frame or fewer than 100 rows, or
  when the next first record would exceed \<open>max_records\<close> (no call is made at all when
  \<open>max_records < 1\<close>). Whatever the other calls would do, pages of 100, 100 and 37 rows
  give a result of these 237 rows in this order after three calls.
\<close>

theorem pagination_order_and_stop:
  "((\<forall>k fr e. fetch k fr \<noteq> Inl e) \<and>
    (1 \<le> mx \<and> (\<exists>df. fetch 0 1 = Inr (Some df) \<and> 100 \<le> length df) \<longrightarrow>
       nap delay = None \<or> (retries \<le> 1 \<and> mx < 101)) \<longrightarrow>
     (let st = run_paginated fetch nap delay mx retries; n = calls st;
          page = (\<lambda>k. fetch k (1 + 100 * int k));
          rows = (\<lambda>k. case page k of Inr (Some df) \<Rightarrow> df | _ \<Rightarrow> []);
          full = (\<lambda>k. 100 \<le> length (rows k)) in
        trace st = concat (map (\<lambda>k. Query (1 + 100 * int k) (page k) #
                                      (if full k then [Sleep delay] else [])) [0..<n]) \<and>
        execute_query_paginated fetch nap delay mx retries =
          Inr (if concat (map rows [0..<n]) = [] then None else Some (concat (map rows [0..<n]))) \<and>
        (\<forall>k<n. 1 + 100 * int k \<le> mx \<and>
           (Suc k < n \<longleftrightarrow> full k \<and> 1 + 100 * int (Suc k) \<le> mx)) \<and>
        (n = 0 \<longleftrightarrow> mx < 1))) \<and>
   (\<forall>p0 p1 p2.
      fetch 0 1 = Inr (Some p0) \<and> fetch 1 101 = Inr (Some p1) \<and> fetch 2 201 = Inr (Some p2) \<and>
      length p0 = 100 \<and> length p1 = 100 \<and> length p2 = 37 \<and> 201 \<le> mx \<and> nap delay = None \<longrightarrow>
      calls (run_paginated fetch nap delay mx retries) = 3 \<and>
      execute_query_paginated fetch nap delay mx retries = Inr (Some (p0 @ p1 @ p2)) \<and>
      length (p0 @ p1 @ p2) = 237)"
proof (intro conjI impI allI)
  assume h: "(\<forall>k fr e. fetch k fr \<noteq> Inl e) \<and>
    (1 \<le> mx \<and> (\<exists>df. fetch 0 1 = Inr (Some df) \<and> 100 \<le> length df) \<longrightarrow>
       nap delay = None \<or> (retries \<le> 1 \<and> mx < 101))"
  then have nr: "\<forall>k fr e. fetch k fr \<noteq> Inl e"
    and hp: "1 \<le> mx \<and> (\<exists>df. fetch 0 1 = Inr (Some df) \<and> 100 \<le> length df) \<longrightarrow>
       nap delay = None \<or> (retries \<le> 1 \<and> mx < 101)"
    by blast+
  have sr: "sleeps_return fetch nap delay mx retries" by (rule sleeps_return_pages[where fetch = fetch and nap = nap and delay = delay and mx = mx
                   and retries = retries, OF nr hp])
  let ?st = "run_paginated fetch nap delay mx retries"
  let ?n = "calls ?st"
  let ?page = "\<lambda>k. fetch k (1 + 100 * int k)"
  let ?rows = "\<lambda>k. case ?page k of Inr (Some df) \<Rightarrow> df | _ \<Rightarrow> []"
  let ?full = "\<lambda>k. 100 \<le> length (?rows k)"
  have post: "rounds_post fetch delay mx retries initial ?st" by (rule run_rounds[OF sr])
  have pos: "position fetch k = (1 + 100 * int k, 0)" if "k < ?n" for k
    by (rule run_full_pages[OF nr post that])
  have out: "outcome_at fetch k = ?page k" if "k < ?n" for k
    using pos[OF that] by (simp add: outcome_at_def record_at_def)
  have rows: "rows_at fetch k = ?rows k" if "k < ?n" for k
    using out[OF that] by (simp add: rows_at_def)
  have ev: "round_events fetch delay retries k =
            Query (1 + 100 * int k) (?page k) # (if ?full k then [Sleep delay] else [])"
    if "k < ?n" for k
    using out[OF that] pos[OF that] nr
    by (auto simp: round_events_def record_at_def split: sum.splits option.splits)
  have go: "goes_on_after fetch mx retries k \<longleftrightarrow> ?full k \<and> 1 + 100 * int (Suc k) \<le> mx"
    if "k < ?n" for k
    using out[OF that] pos[OF that] nr
    by (auto simp: goes_on_after_def record_at_def split: sum.splits option.splits)
  have rec: "record_at fetch k = 1 + 100 * int k" if "k < ?n" for k
    using pos[OF that] by (simp add: record_at_def)
  have m1: "map (rows_at fetch) [0..<?n] = map ?rows [0..<?n]" using rows by simp
  have m2: "map (round_events fetch delay retries) [0..<?n] =
            map (\<lambda>k. Query (1 + 100 * int k) (?page k) # (if ?full k then [Sleep delay] else []))
              [0..<?n]" using ev by simp
  have 1: "trace ?st = concat (map (\<lambda>k. Query (1 + 100 * int k) (?page k) #
                                      (if ?full k then [Sleep delay] else [])) [0..<?n])"
    using post unfolding m2[symmetric] by (simp add: rounds_post_def initial_def)
  have 2: "execute_query_paginated fetch nap delay mx retries =
          Inr (if concat (map ?rows [0..<?n]) = [] then None else Some (concat (map ?rows [0..<?n])))"
    using result_of_rounds[OF post] unfolding m1 .
  have 3: "\<forall>k<?n. 1 + 100 * int k \<le> mx \<and>
           (Suc k < ?n \<longleftrightarrow> ?full k \<and> 1 + 100 * int (Suc k) \<le> mx)"
  proof (intro allI impI)
    fix k assume k: "k < ?n"
    with post have "record_at fetch k \<le> mx \<and> (Suc k < ?n \<longleftrightarrow> goes_on_after fetch mx retries k)"
      by (simp add: rounds_post_def initial_def)
    then show "1 + 100 * int k \<le> mx \<and> (Suc k < ?n \<longleftrightarrow> ?full k \<and> 1 + 100 * int (Suc k) \<le> mx)"
      unfolding rec[OF k] go[OF k] .
  qed
  have 4: "?n = 0 \<longleftrightarrow> mx < 1" using post by (simp add: rounds_post_def initial_def)
  from 1 2 3 4 show "let st = run_paginated fetch nap delay mx retries; n = calls st;
          page = (\<lambda>k. fetch k (1 + 100 * int k));
          rows = (\<lambda>k. case page k of Inr (Some df) \<Rightarrow> df | _ \<Rightarrow> []);
          full = (\<lambda>k. 100 \<le> length (rows k)) in
        trace st = concat (map (\<lambda>k. Query (1 + 100 * int k) (page k) #
                                      (if full k then [Sleep delay] else [])) [0..<n]) \<and>
        execute_query_paginated fetch nap delay mx retries =
          Inr (if concat (map rows [0..<n]) = [] then None else Some (concat (map rows [0..<n]))) \<and>
        (\<forall>k<n. 1 + 100 * int k \<le> mx \<and>
           (Suc k < n \<longleftrightarrow> full k \<and> 1 + 100 * int (Suc k) \<le> mx)) \<and>
        (n = 0 \<longleftrightarrow> mx < 1)"
    unfolding Let_def by (intro conjI)
next
  fix p0 p1 p2
  assume a: "fetch 0 1 = Inr (Some p0) \<and> fetch 1 101 = Inr (Some p1) \<and> fetch 2 201 = Inr (Some p2) \<and>
      length p0 = 100 \<and> length p1 = 100 \<and> length p2 = 37 \<and> 201 \<le> mx \<and> nap delay = None"
  then have r: "run_paginated fetch nap delay mx retries =
     \<lparr>all_dfs = [p0, p1, p2], first_record = 201, attempts = 0, calls = 3,
      trace = [Query 1 (Inr (Some p0)), Sleep delay, Query 101 (Inr (Some p1)), Sleep delay,
               Query 201 (Inr (Some p2))], uncaught = None\<rparr>"
    by (intro three_pages) simp_all
  show "calls (run_paginated fetch nap delay mx retries) = 3" by (simp add: r)
  show "execute_query_paginated fetch nap delay mx retries = Inr (Some (p0 @ p1 @ p2))"
    by (simp add: execute_query_paginated_def r concat_result_def)
  show "length (p0 @ p1 @ p2) = 237" using a by simp
qed

lemma sleep_small_pow: "0 \<le> d \<Longrightarrow> sleep_small (d * 2 ^ a) = None"
proof -
  assume "0 \<le> d"
  then have "0 \<le> d * 2 ^ a" by simp
  then show ?thesis by (simp add: sleep_small_def not_less)
qed

lemma run_wfetch:
  "trace (run_paginated wfetch sleep_small 1 5000 5) =
     [Query 1 (Inr (Some (replicate 100 0))), Sleep 1, Query 101 (Inr (Some (replicate 100 1))),
      Sleep 1, Query 201 (Inr (Some (replicate 37 2)))]"
  by code_simp

theorem pagination_order_and_stop_witness:
  "(\<forall>k fr e. wfetch k fr \<noteq> Inl e) \<and> sleep_small 1 = None \<and>
   wfetch 0 1 = Inr (Some (replicate 100 0)) \<and> wfetch 1 101 = Inr (Some (replicate 100 1)) \<and>
   wfetch 2 201 = Inr (Some (replicate 37 2)) \<and> (201::int) \<le> 5000 \<and>
   calls (run_paginated wfetch sleep_small 1 5000 5) = 3 \<and>
   execute_query_paginated wfetch sleep_small 1 5000 5 =
     Inr (Some (replicate 100 0 @ replicate 100 1 @ replicate 37 2)) \<and>
   length (replicate 100 (0::nat) @ replicate 100 1 @ replicate 37 2) = 237 \<and>
   (let st = run_paginated wfetch sleep_small 1 5000 5; n = calls st;
          page = (\<lambda>k. wfetch k (1 + 100 * int k));
          rows = (\<lambda>k. case page k of Inr (Some df) \<Rightarrow> df | _ \<Rightarrow> []);
          full = (\<lambda>k. 100 \<le> length (rows k)) in
        trace st = concat (map (\<lambda>k. Query (1 + 100 * int k) (page k) #
                                      (if full k then [Sleep 1] else [])) [0..<n]) \<and>
        execute_query_paginated wfetch sleep_small 1 5000 5 =
          Inr (if concat (map rows [0..<n]) = [] then None else Some (concat (map rows [0..<n]))) \<and>
        (\<forall>k<n. 1 + 100 * int k \<le> 5000 \<and>
           (Suc k < n \<longleftrightarrow> full k \<and> 1 + 100 * int (Suc k) \<le> 5000)) \<and>
        (n = 0 \<longleftrightarrow> (5000::int) < 1))"
proof -
  have nr: "\<forall>k fr e. wfetch k fr \<noteq> Inl e" by (simp add: wfetch_def)
  have s: "sleep_small 1 = None" by (simp add: sleep_small_def)
  have h: "(\<forall>k fr e. wfetch k fr \<noteq> Inl e) \<and>
    ((1::int) \<le> 5000 \<and> (\<exists>df. wfetch 0 1 = Inr (Some df) \<and> 100 \<le> length df) \<longrightarrow>
       sleep_small 1 = None \<or> ((5::int) \<le> 1 \<and> (5000::int) < 101))"
    using nr s by simp
  have i: "wfetch 0 1 = Inr (Some (replicate 100 0)) \<and> wfetch 1 101 = Inr (Some (replicate 100 1)) \<and>
    wfetch 2 201 = Inr (Some (replicate 37 2)) \<and>
    length (replicate 100 (0::nat)) = 100 \<and> length (replicate 100 (1::nat)) = 100 \<and>
    length (replicate 37 (2::nat)) = 37 \<and> (201::int) \<le> 5000 \<and> sleep_small 1 = None"
    using s by (simp add: wfetch_def)
  note t = pagination_order_and_stop[where fetch = wfetch and nap = sleep_small and delay = 1
             and mx = 5000 and retries = 5]
  note a = t[THEN conjunct1, THEN mp, OF h]
  note b = t[THEN conjunct2, rule_format, OF i]
  from nr s i a b show ?thesis by (intro conjI) simp_all
qed

theorem pagination_order_and_stop_counterexample:
  "execute_query_paginated wfetch sleep_small (-1) 5000 5 =
     Inl (ValueError ''sleep length must be non-negative'') \<and>
   trace (run_paginated wfetch sleep_small (-1) 5000 5) =
     [Query 1 (Inr (Some (replicate 100 0))), Sleep (-1), Sleep (-2)]"
  by code_simp

section \<open>Pagination: exceptions, backoff and partial results\<close>

lemma failures_bound:
  assumes post: "rounds_post fetch delay mx retries initial st" and k: "k < calls st"
  shows "failures_before fetch k = 0 \<or> int (failures_before fetch k) < retries"
proof (cases k)
  case 0
  then show ?thesis by (simp add: failures_before_def)
next
  case (Suc j)
  from post have "\<forall>i. i < calls st \<longrightarrow> record_at fetch i \<le> mx \<and>
                    (Suc i < calls st \<longleftrightarrow> goes_on_after fetch mx retries i)"
    by (simp add: rounds_post_def initial_def)
  with k Suc have "goes_on_after fetch mx retries j" by (metis Suc_lessD)
  then show ?thesis unfolding Suc
    by (auto simp: goes_on_after_def failures_before_def outcome_at_def record_at_def
             split: sum.splits option.splits prod.splits)
qed

lemma next_position:
  assumes g: "goes_on_after fetch mx retries k"
  shows "case outcome_at fetch k of
           Inl e \<Rightarrow> record_at fetch (Suc k) = record_at fetch k \<and>
                    failures_before fetch (Suc k) = Suc (failures_before fetch k) \<and>
                    int (Suc (failures_before fetch k)) < retries
         | Inr p \<Rightarrow> record_at fetch (Suc k) = record_at fetch k + 100 \<and>
                    failures_before fetch (Suc k) = 0"
  using g
  by (auto simp: goes_on_after_def failures_before_def outcome_at_def record_at_def
           split: sum.splits option.splits prod.splits)

text \<open>
  C2, as amended. \<open>record_at fetch k\<close> is the first record that the call number \<open>k\<close> asks
  for and \<open>failures_before fetch k\<close> the number of calls that raised in a row just before
  it. When every sleep of the run returns (\<open>sleeps_return\<close>: the sleep of \<open>delay\<close> after a
  page of at least 100 rows, and the sleep of \<open>delay * 2 ^ a\<close> after the \<open>a\<close>-th failure in a
  row, with \<open>a < retries\<close> and \<open>a < 1024\<close>), the function does not raise. It returns
  the concatenation, in the order of the calls, of all the frames that the calls of the
  run returned, whatever made the loop end, and \<open>None\<close> when they hold no row. A call that
  raises as the \<open>a\<close>-th in a row is followed by a sleep of \<open>delay * 2 ^ a\<close> and a call for
  the same first record when \<open>a < retries\<close>, and is the last call otherwise.
\<close>

theorem pagination_partial_results:
  "sleeps_return fetch nap delay mx retries \<longrightarrow>
   (let st = run_paginated fetch nap delay mx retries; n = calls st in
      execute_query_paginated fetch nap delay mx retries =
        Inr (if concat (map (rows_at fetch) [0..<n]) = [] then None
             else Some (concat (map (rows_at fetch) [0..<n]))) \<and>
      trace st = concat (map (round_events fetch delay retries) [0..<n]) \<and>
      (\<forall>k<n. record_at fetch k \<le> mx \<and> (Suc k < n \<longleftrightarrow> goes_on_after fetch mx retries k)) \<and>
      (\<forall>k<n. \<forall>e. outcome_at fetch k = Inl e \<longrightarrow>
          (if int (Suc (failures_before fetch k)) < retries
           then Suc k < n \<and> record_at fetch (Suc k) = record_at fetch k \<and>
                failures_before fetch (Suc k) = Suc (failures_before fetch k)
           else Suc k = n)) \<and>
      (n = 0 \<longleftrightarrow> mx < 1))"
proof (intro impI)
  assume h: "sleeps_return fetch nap delay mx retries"
  let ?st = "run_paginated fetch nap delay mx retries"
  let ?n = "calls ?st"
  from h have post: "rounds_post fetch delay mx retries initial ?st"
    by (rule run_rounds)
  have 1: "execute_query_paginated fetch nap delay mx retries =
        Inr (if concat (map (rows_at fetch) [0..<?n]) = [] then None
             else Some (concat (map (rows_at fetch) [0..<?n])))"
    by (rule result_of_rounds[OF post])
  have 2: "trace ?st = concat (map (round_events fetch delay retries) [0..<?n])"
    using post by (simp add: rounds_post_def initial_def)
  have 3: "\<forall>k<?n. record_at fetch k \<le> mx \<and> (Suc k < ?n \<longleftrightarrow> goes_on_after fetch mx retries k)"
    using post by (simp add: rounds_post_def initial_def)
  have 4: "\<forall>k<?n. \<forall>e. outcome_at fetch k = Inl e \<longrightarrow>
          (if int (Suc (failures_before fetch k)) < retries
           then Suc k < ?n \<and> record_at fetch (Suc k) = record_at fetch k \<and>
                failures_before fetch (Suc k) = Suc (failures_before fetch k)
           else Suc k = ?n)"
  proof (intro allI impI)
    fix k e assume k: "k < ?n" and e: "outcome_at fetch k = Inl e"
    from 3 k have s: "Suc k < ?n \<longleftrightarrow> goes_on_after fetch mx retries k" by blast
    have g: "goes_on_after fetch mx retries k \<longleftrightarrow> int (Suc (failures_before fetch k)) < retries"
      using e by (simp add: goes_on_after_def)
    show "if int (Suc (failures_before fetch k)) < retries
           then Suc k < ?n \<and> record_at fetch (Suc k) = record_at fetch k \<and>
                failures_before fetch (Suc k) = Suc (failures_before fetch k)
           else Suc k = ?n"
    proof (cases "int (Suc (failures_before fetch k)) < retries")
      case True
      with g have go: "goes_on_after fetch mx retries k" by simp
      from next_position[OF go] e s go True show ?thesis by simp
    next
      case False
      with g s k show ?thesis by auto
    qed
  qed
  have 5: "?n = 0 \<longleftrightarrow> mx < 1" using post by (simp add: rounds_post_def initial_def)
  from 1 2 3 4 5 show "let st = run_paginated fetch nap delay mx retries; n = calls st in
      execute_query_paginated fetch nap delay mx retries =
        Inr (if concat (map (rows_at fetch) [0..<n]) = [] then None
             else Some (concat (map (rows_at fetch) [0..<n]))) \<and>
      trace st = concat (map (round_events fetch delay retries) [0..<n]) \<and>
      (\<forall>k<n. record_at fetch k \<le> mx \<and> (Suc k < n \<longleftrightarrow> goes_on_after fetch mx retries k)) \<and>
      (\<forall>k<n. \<forall>e. outcome_at fetch k = Inl e \<longrightarrow>
          (if int (Suc (failures_before fetch k)) < retries
           then Suc k < n \<and> record_at fetch (Suc k) = record_at fetch k \<and>
                failures_before fetch (Suc k) = Suc (failures_before fetch k)
           else Suc k = n)) \<and>
      (n = 0 \<longleftrightarrow> mx < 1)"
    unfolding Let_def by (intro conjI)
qed

lemma sleeps_return_small:
  assumes "0 \<le> delay" "retries \<le> 1024"
  shows "sleeps_return fetch sleep_small delay mx retries"
proof -
  from assms(1) have d: "sleep_small delay = None" by (simp add: sleep_small_def not_less)
  have p: "sleep_small (delay * (2 * 2 ^ a)) = None" for a
    using sleep_small_pow[OF assms(1), of "Suc a"] by simp
  show ?thesis
    unfolding sleeps_return_def using d p assms(2)
    by (auto split: sum.splits option.splits)
qed

lemma run_wfetch2:
  "calls (run_paginated wfetch2 sleep_small 1 5000 3) = 6"
  "concat (map (rows_at wfetch2) [0..<6]) = replicate 100 0 @ replicate 100 2"
  "concat (map (round_events wfetch2 1 3) [0..<6]) =
     [Query 1 (Inr (Some (replicate 100 0))), Sleep 1, Query 101 (Inl OtherError), Sleep 2,
      Query 101 (Inr (Some (replicate 100 2))), Sleep 1, Query 201 (Inl OtherError), Sleep 2,
      Query 201 (Inl OtherError), Sleep 4, Query 201 (Inl OtherError)]"
  by code_simp+

theorem pagination_partial_results_witness:
  "sleeps_return wfetch2 sleep_small 1 5000 3 \<and>
   sleeps_return (\<lambda>k fr. Inl OtherError :: error + nat list option) sleep_small 1 5000 3 \<and>
   sleep_small 1 = None \<and> sleep_small (1 * 2 ^ 1) = None \<and> sleep_small (1 * 2 ^ 2) = None \<and>
   wfetch2 1 101 = Inl OtherError \<and>
   execute_query_paginated wfetch2 sleep_small 1 5000 3 =
     Inr (Some (replicate 100 0 @ replicate 100 2)) \<and>
   trace (run_paginated wfetch2 sleep_small 1 5000 3) =
     [Query 1 (Inr (Some (replicate 100 0))), Sleep 1, Query 101 (Inl OtherError), Sleep 2,
      Query 101 (Inr (Some (replicate 100 2))), Sleep 1, Query 201 (Inl OtherError), Sleep 2,
      Query 201 (Inl OtherError), Sleep 4, Query 201 (Inl OtherError)] \<and>
   calls (run_paginated (\<lambda>k fr. Inl OtherError :: error + nat list option) sleep_small 1 5000 3) = 3 \<and>
   execute_query_paginated (\<lambda>k fr. Inl OtherError :: error + nat list option) sleep_small 1 5000 3 =
     Inr None"
proof -
  have s: "sleep_small 1 = None" "sleep_small (1 * 2 ^ 1) = None" "sleep_small (1 * 2 ^ 2) = None"
    by (simp_all add: sleep_small_def)
  have f: "wfetch2 1 101 = Inl OtherError" by (simp add: wfetch2_def)
  have h: "sleeps_return fetch sleep_small 1 5000 3" for fetch :: "nat \<Rightarrow> int \<Rightarrow> error + nat list option"
    by (rule sleeps_return_small) simp_all
  note a = pagination_partial_results[where fetch = wfetch2 and nap = sleep_small and delay = 1
             and mx = 5000 and retries = 3, THEN mp, OF h, unfolded Let_def run_wfetch2(1)]
  from a have 1: "execute_query_paginated wfetch2 sleep_small 1 5000 3 =
     Inr (Some (replicate 100 0 @ replicate 100 2))"
    unfolding run_wfetch2(2) by simp
  from a have 2: "trace (run_paginated wfetch2 sleep_small 1 5000 3) =
     [Query 1 (Inr (Some (replicate 100 0))), Sleep 1, Query 101 (Inl OtherError), Sleep 2,
      Query 101 (Inr (Some (replicate 100 2))), Sleep 1, Query 201 (Inl OtherError), Sleep 2,
      Query 201 (Inl OtherError), Sleep 4, Query 201 (Inl OtherError)]"
    unfolding run_wfetch2(3) by simp
  let ?f = "\<lambda>k fr. Inl OtherError :: error + nat list option"
  have c: "calls (run_paginated ?f sleep_small 1 5000 3) = 3" by code_simp
  have r: "rows_at ?f k = []" for k by (simp add: rows_at_def outcome_at_def)
  note b = pagination_partial_results[where fetch = ?f and nap = sleep_small and delay = 1
             and mx = 5000 and retries = 3, THEN mp, OF h, unfolded Let_def, THEN conjunct1]
  from b have 3: "execute_query_paginated ?f sleep_small 1 5000 3 = Inr None"
    by (simp add: r)
  from h[of wfetch2] h[of ?f] s f 1 2 c 3 show ?thesis by (intro conjI)
qed

theorem pagination_partial_results_counterexample:
  "execute_query_paginated (\<lambda>k fr. Inl OtherError :: error + nat list option) sleep_small (-1) 5000 3 =
     Inl (ValueError ''sleep length must be non-negative'') \<and>
   trace (run_paginated (\<lambda>k fr. Inl OtherError :: error + nat list option) sleep_small (-1) 5000 3) =
     [Query 1 (Inl OtherError), Sleep (-2)] \<and>
   execute_query_paginated wfetch2 sleep_small (-1) 5000 3 =
     Inl (ValueError ''sleep length must be non-negative'') \<and>
   all_dfs (run_paginated wfetch2 sleep_small (-1) 5000 3) = [replicate 100 0]"
  by code_simp

text \<open>
  C10, as amended. When every sleep of the run returns (\<open>sleeps_return\<close>), the calls of a run
  are those of the positions \<open>position fetch k\<close>: after a call that raises, the next call
  asks for the same first record and the number of failures in a row is one more, which
  stays below \<open>retries\<close> as long as the run goes on; after a call that returns and is not
  the last one, the next call asks for the first record 100 further and the number of
  failures in a row is 0 again. A call that raises and brings this number to \<open>retries\<close> is
  the last; apart from that the run ends only on a call that returns \<open>None\<close>, no row or
  fewer than 100 rows, or when the next first record would exceed \<open>max_records\<close>, and it
  makes a first call unless \<open>max_records < 1\<close>. So a run can see more exceptions than \<open>retries\<close> in all: with \<open>retries = 2\<close>,
  three calls raise in the run of \<open>wfetch3\<close>, which still returns all 237 rows.
\<close>

theorem retry_ceiling_is_consecutive:
  "(sleeps_return fetch nap delay mx retries \<longrightarrow>
    (let st = run_paginated fetch nap delay mx retries; n = calls st in
       trace st = concat (map (round_events fetch delay retries) [0..<n]) \<and>
       (\<forall>k. Suc k < n \<longrightarrow>
          (case outcome_at fetch k of
             Inl e \<Rightarrow> record_at fetch (Suc k) = record_at fetch k \<and>
                      failures_before fetch (Suc k) = Suc (failures_before fetch k) \<and>
                      int (Suc (failures_before fetch k)) < retries
           | Inr p \<Rightarrow> record_at fetch (Suc k) = record_at fetch k + 100 \<and>
                      failures_before fetch (Suc k) = 0)) \<and>
       (\<forall>k<n. failures_before fetch k = 0 \<or> int (failures_before fetch k) < retries) \<and>
       (\<forall>k<n. \<forall>e. outcome_at fetch k = Inl e \<and> retries \<le> int (Suc (failures_before fetch k)) \<longrightarrow>
            Suc k = n) \<and>
       (\<forall>k<n. record_at fetch k \<le> mx \<and> (Suc k < n \<longleftrightarrow> goes_on_after fetch mx retries k)) \<and>
       (n = 0 \<longleftrightarrow> mx < 1))) \<and>
   (trace (run_paginated wfetch3 sleep_small 1 5000 2) =
      [Query 1 (Inl OtherError), Sleep 2, Query 1 (Inr (Some (replicate 100 1))), Sleep 1,
       Query 101 (Inl OtherError), Sleep 2, Query 101 (Inr (Some (replicate 100 3))), Sleep 1,
       Query 201 (Inl OtherError), Sleep 2, Query 201 (Inr (Some (replicate 37 5)))] \<and>
    execute_query_paginated wfetch3 sleep_small 1 5000 2 =
      Inr (Some (replicate 100 1 @ replicate 100 3 @ replicate 37 5)))"
proof (intro conjI impI)
  assume h: "sleeps_return fetch nap delay mx retries"
  let ?st = "run_paginated fetch nap delay mx retries"
  let ?n = "calls ?st"
  from h have post: "rounds_post fetch delay mx retries initial ?st"
    by (rule run_rounds)
  have s: "\<forall>k<?n. record_at fetch k \<le> mx \<and> (Suc k < ?n \<longleftrightarrow> goes_on_after fetch mx retries k)"
    using post by (simp add: rounds_post_def initial_def)
  have 1: "trace ?st = concat (map (round_events fetch delay retries) [0..<?n])"
    using post by (simp add: rounds_post_def initial_def)
  have 2: "\<forall>k. Suc k < ?n \<longrightarrow>
          (case outcome_at fetch k of
             Inl e \<Rightarrow> record_at fetch (Suc k) = record_at fetch k \<and>
                      failures_before fetch (Suc k) = Suc (failures_before fetch k) \<and>
                      int (Suc (failures_before fetch k)) < retries
           | Inr p \<Rightarrow> record_at fetch (Suc k) = record_at fetch k + 100 \<and>
                      failures_before fetch (Suc k) = 0)"
  proof (intro allI impI)
    fix k assume k: "Suc k < ?n"
    then have "k < ?n" by simp
    with s k have "goes_on_after fetch mx retries k" by blast
    then show "case outcome_at fetch k of
             Inl e \<Rightarrow> record_at fetch (Suc k) = record_at fetch k \<and>
                      failures_before fetch (Suc k) = Suc (failures_before fetch k) \<and>
                      int (Suc (failures_before fetch k)) < retries
           | Inr p \<Rightarrow> record_at fetch (Suc k) = record_at fetch k + 100 \<and>
                      failures_before fetch (Suc k) = 0"
      by (rule next_position)
  qed
  have 3: "\<forall>k<?n. failures_before fetch k = 0 \<or> int (failures_before fetch k) < retries"
    using failures_bound[OF post] by blast
  have 4: "\<forall>k<?n. \<forall>e. outcome_at fetch k = Inl e \<and> retries \<le> int (Suc (failures_before fetch k)) \<longrightarrow>
            Suc k = ?n"
  proof (intro allI impI)
    fix k e assume k: "k < ?n"
      and e: "outcome_at fetch k = Inl e \<and> retries \<le> int (Suc (failures_before fetch k))"
    then have "\<not> goes_on_after fetch mx retries k" by (simp add: goes_on_after_def)
    with s k show "Suc k = ?n" by (metis Suc_lessI)
  qed
  have 5: "?n = 0 \<longleftrightarrow> mx < 1" using post by (simp add: rounds_post_def initial_def)
  from 1 2 3 4 s 5 show "let st = run_paginated fetch nap delay mx retries; n = calls st in
       trace st = concat (map (round_events fetch delay retries) [0..<n]) \<and>
       (\<forall>k. Suc k < n \<longrightarrow>
          (case outcome_at fetch k of
             Inl e \<Rightarrow> record_at fetch (Suc k) = record_at fetch k \<and>
                      failures_before fetch (Suc k) = Suc (failures_before fetch k) \<and>
                      int (Suc (failures_before fetch k)) < retries
           | Inr p \<Rightarrow> record_at fetch (Suc k) = record_at fetch k + 100 \<and>
                      failures_before fetch (Suc k) = 0)) \<and>
       (\<forall>k<n. failures_before fetch k = 0 \<or> int (failures_before fetch k) < retries) \<and>
       (\<forall>k<n. \<forall>e. outcome_at fetch k = Inl e \<and> retries \<le> int (Suc (failures_before fetch k)) \<longrightarrow>
            Suc k = n) \<and>
       (\<forall>k<n. record_at fetch k \<le> mx \<and> (Suc k < n \<longleftrightarrow> goes_on_after fetch mx retries k)) \<and>
       (n = 0 \<longleftrightarrow> mx < 1)"
    unfolding Let_def by (intro conjI)
next
  show "trace (run_paginated wfetch3 sleep_small 1 5000 2) =
      [Query 1 (Inl OtherError), Sleep 2, Query 1 (Inr (Some (replicate 100 1))), Sleep 1,
       Query 101 (Inl OtherError), Sleep 2, Query 101 (Inr (Some (replicate 100 3))), Sleep 1,
       Query 201 (Inl OtherError), Sleep 2, Query 201 (Inr (Some (replicate 37 5)))]"
    by code_simp
  show "execute_query_paginated wfetch3 sleep_small 1 5000 2 =
      Inr (Some (replicate 100 1 @ replicate 100 3 @ replicate 37 5))"
    by code_simp
qed

lemma run_wfetch3:
  "calls (run_paginated wfetch3 sleep_small 1 5000 2) = 6"
  "concat (map (round_events wfetch3 1 2) [0..<6]) =
      [Query 1 (Inl OtherError), Sleep 2, Query 1 (Inr (Some (replicate 100 1))), Sleep 1,
       Query 101 (Inl OtherError), Sleep 2, Query 101 (Inr (Some (replicate 100 3))), Sleep 1,
       Query 201 (Inl OtherError), Sleep 2, Query 201 (Inr (Some (replicate 37 5)))]"
  "outcome_at wfetch3 0 = Inl OtherError"
  "outcome_at wfetch3 (Suc 0) = Inr (Some (replicate 100 1))"
  by code_simp+

theorem retry_ceiling_is_consecutive_witness:
  "sleeps_return wfetch3 sleep_small 1 5000 2 \<and> sleep_small 1 = None \<and> sleep_small (1 * 2 ^ 1) = None \<and> wfetch3 0 1 = Inl OtherError \<and>
   wfetch3 1 1 = Inr (Some (replicate 100 1)) \<and>
   trace (run_paginated wfetch3 sleep_small 1 5000 2) =
      [Query 1 (Inl OtherError), Sleep 2, Query 1 (Inr (Some (replicate 100 1))), Sleep 1,
       Query 101 (Inl OtherError), Sleep 2, Query 101 (Inr (Some (replicate 100 3))), Sleep 1,
       Query 201 (Inl OtherError), Sleep 2, Query 201 (Inr (Some (replicate 37 5)))] \<and>
   record_at wfetch3 (Suc 0) = record_at wfetch3 0 \<and>
   failures_before wfetch3 (Suc 0) = Suc (failures_before wfetch3 0) \<and>
   record_at wfetch3 (Suc (Suc 0)) = record_at wfetch3 (Suc 0) + 100 \<and>
   failures_before wfetch3 (Suc (Suc 0)) = 0"
proof -
  have s: "sleep_small 1 = None" "sleep_small (1 * 2 ^ 1) = None"
    by (simp_all add: sleep_small_def)
  have f: "wfetch3 0 1 = Inl OtherError" "wfetch3 1 1 = Inr (Some (replicate 100 1))"
    by (simp_all add: wfetch3_def)
  have h: "sleeps_return wfetch3 sleep_small 1 5000 2"
    by (rule sleeps_return_small) simp_all
  note a = retry_ceiling_is_consecutive[where fetch = wfetch3 and nap = sleep_small and delay = 1
             and mx = 5000 and retries = 2, THEN conjunct1, THEN mp, OF h,
             unfolded Let_def run_wfetch3(1)]
  from a have 1: "trace (run_paginated wfetch3 sleep_small 1 5000 2) =
      [Query 1 (Inl OtherError), Sleep 2, Query 1 (Inr (Some (replicate 100 1))), Sleep 1,
       Query 101 (Inl OtherError), Sleep 2, Query 101 (Inr (Some (replicate 100 3))), Sleep 1,
       Query 201 (Inl OtherError), Sleep 2, Query 201 (Inr (Some (replicate 37 5)))]"
    unfolding run_wfetch3(2) by simp
  from a have n: "\<forall>k. Suc k < 6 \<longrightarrow>
          (case outcome_at wfetch3 k of
             Inl e \<Rightarrow> record_at wfetch3 (Suc k) = record_at wfetch3 k \<and>
                      failures_before wfetch3 (Suc k) = Suc (failures_before wfetch3 k) \<and>
                      int (Suc (failures_before wfetch3 k)) < 2
           | Inr p \<Rightarrow> record_at wfetch3 (Suc k) = record_at wfetch3 k + 100 \<and>
                      failures_before wfetch3 (Suc k) = 0)" by blast
  from n[rule_format, of 0] have 2: "record_at wfetch3 (Suc 0) = record_at wfetch3 0 \<and>
     failures_before wfetch3 (Suc 0) = Suc (failures_before wfetch3 0)"
    by (simp add: run_wfetch3(3))
  from n[rule_format, of "Suc 0"]
  have 3: "record_at wfetch3 (Suc (Suc 0)) = record_at wfetch3 (Suc 0) + 100 \<and>
     failures_before wfetch3 (Suc (Suc 0)) = 0"
    unfolding run_wfetch3(4) by simp
  from h s f 1 2 3 show ?thesis by (intro conjI) simp_all
qed

theorem retry_ceiling_is_consecutive_counterexample:
  "trace (run_paginated wfetch sleep_small (-1) 5000 1) =
     [Query 1 (Inr (Some (replicate 100 0))), Sleep (-1)] \<and>
   attempts (run_paginated wfetch sleep_small (-1) 5000 1) = 1 \<and>
   first_record (run_paginated wfetch sleep_small (-1) 5000 1) = 101 \<and>
   execute_query_paginated wfetch sleep_small (-1) 5000 1 = Inr (Some (replicate 100 0)) \<and>
   execute_query_paginated wfetch sleep_small (-1) 5000 2 =
     Inl (ValueError ''sleep length must be non-negative'')"
  by code_simp

end
